theory Spec2Isabelle
  imports Complex_Main "HOL-Library.Log_Nat"
begin

section \<open>JavaScript numbers: IEEE 754 binary64\<close>

text \<open>
  The swap widget computes its quotes with JavaScript's \<^verbatim>\<open>number\<close> type. A number is
  modelled by its exact rational value when it is finite and not the negative zero, and
  by a constructor of its own otherwise. Every arithmetic operation computes the exact
  rational result and rounds it to the nearest binary64 value, ties to even.
\<close>

datatype number = NaN | PInf | NInf | NZero | Fin rat

fun isNaN :: "number \<Rightarrow> bool" where
  "isNaN NaN = True"
| "isNaN _ = False"

fun is_inf :: "number \<Rightarrow> bool" where
  "is_inf PInf = True"
| "is_inf NInf = True"
| "is_inf _ = False"

fun is_zero :: "number \<Rightarrow> bool" where
  "is_zero NZero = True"
| "is_zero (Fin r) = (r = 0)"
| "is_zero _ = False"

fun is_finite :: "number \<Rightarrow> bool" where
  "is_finite NZero = True"
| "is_finite (Fin r) = True"
| "is_finite _ = False"

fun sign_neg :: "number \<Rightarrow> bool" where
  "sign_neg NInf = True"
| "sign_neg NZero = True"
| "sign_neg (Fin r) = (r < 0)"
| "sign_neg _ = False"

fun val :: "number \<Rightarrow> rat" where
  "val (Fin r) = r"
| "val _ = 0"

definition signed_inf :: "bool \<Rightarrow> number" where
  "signed_inf neg = (if neg then NInf else PInf)"

definition signed_zero :: "bool \<Rightarrow> number" where
  "signed_zero neg = (if neg then NZero else Fin 0)"

subsection \<open>Rounding to nearest, ties to even\<close>

text \<open>Powers of two with an integer exponent.\<close>

definition pow2 :: "int \<Rightarrow> rat" where
  "pow2 e = 2 powi e"

text \<open>
  \<open>ilog2 x\<close> is the binary exponent of a positive rational: \<open>2^e \<le> x < 2^(e+1)\<close>.
  It is read off the bit length of \<open>\<lfloor>x\<rfloor>\<close> when \<open>1 \<le> x\<close>, and of \<open>\<lceil>1/x\<rceil> - 1\<close> otherwise.
\<close>

definition ilog2 :: "rat \<Rightarrow> int" where
  "ilog2 x = (if 1 \<le> x then bitlen \<lfloor>x\<rfloor> - 1 else - bitlen (\<lceil>1 / x\<rceil> - 1))"

definition round_half_even :: "rat \<Rightarrow> int" where
  "round_half_even x =
     (let n = \<lfloor>x\<rfloor>; f = x - of_int n in
      if f < 1 / 2 then n
      else if 1 / 2 < f then n + 1
      else if even n then n else n + 1)"

text \<open>
  The spacing of the binary64 values around \<open>x\<close>: 53 significant bits in the normal
  range, the fixed spacing \<open>2^-1074\<close> below \<open>2^-1022\<close>.
\<close>

definition quantum :: "rat \<Rightarrow> rat" where
  "quantum x = pow2 (max (ilog2 \<bar>x\<bar>) (- 1022) - 52)"

definition round_rat :: "rat \<Rightarrow> rat" where
  "round_rat x = (if x = 0 then 0 else of_int (round_half_even (x / quantum x)) * quantum x)"

text \<open>
  The number nearest to a rational. A result that rounds to \<open>2^1024\<close> overflows to an
  infinity; a negative result that rounds to zero is the negative zero.
\<close>

definition to_number :: "rat \<Rightarrow> number" where
  "to_number x =
     (let r = round_rat x in
      if pow2 1024 \<le> r then PInf
      else if r \<le> - pow2 1024 then NInf
      else if r = 0 \<and> x < 0 then NZero
      else Fin r)"

text \<open>The values of the model that are binary64 numbers.\<close>

fun is_double :: "number \<Rightarrow> bool" where
  "is_double (Fin r) = (round_rat r = r \<and> \<bar>r\<bar> < pow2 1024)"
| "is_double _ = True"

text \<open>The numbers that are neither negative nor NaN.\<close>

fun nonneg_num :: "number \<Rightarrow> bool" where
  "nonneg_num (Fin r) = (0 \<le> r)"
| "nonneg_num PInf = True"
| "nonneg_num _ = False"

subsection \<open>Arithmetic and comparison\<close>

fun fneg :: "number \<Rightarrow> number" where
  "fneg NaN = NaN"
| "fneg PInf = NInf"
| "fneg NInf = PInf"
| "fneg NZero = Fin 0"
| "fneg (Fin r) = (if r = 0 then NZero else Fin (- r))"

definition fadd :: "number \<Rightarrow> number \<Rightarrow> number" where
  "fadd a b =
     (if isNaN a \<or> isNaN b then NaN
      else if is_inf a \<and> is_inf b then (if sign_neg a = sign_neg b then a else NaN)
      else if is_inf a then a
      else if is_inf b then b
      else if is_zero a \<and> is_zero b then signed_zero (sign_neg a \<and> sign_neg b)
      else if val a + val b = 0 then Fin 0
      else to_number (val a + val b))"

definition fsub :: "number \<Rightarrow> number \<Rightarrow> number" where
  "fsub a b = fadd a (fneg b)"

definition fmul :: "number \<Rightarrow> number \<Rightarrow> number" where
  "fmul a b =
     (if isNaN a \<or> isNaN b then NaN
      else if (is_inf a \<and> is_zero b) \<or> (is_zero a \<and> is_inf b) then NaN
      else if is_inf a \<or> is_inf b then signed_inf (sign_neg a \<noteq> sign_neg b)
      else if is_zero a \<or> is_zero b then signed_zero (sign_neg a \<noteq> sign_neg b)
      else to_number (val a * val b))"

definition fdiv :: "number \<Rightarrow> number \<Rightarrow> number" where
  "fdiv a b =
     (if isNaN a \<or> isNaN b then NaN
      else if (is_inf a \<and> is_inf b) \<or> (is_zero a \<and> is_zero b) then NaN
      else if is_inf a \<or> is_zero b then signed_inf (sign_neg a \<noteq> sign_neg b)
      else if is_zero a \<or> is_inf b then signed_zero (sign_neg a \<noteq> sign_neg b)
      else to_number (val a / val b))"

text \<open>\<^verbatim>\<open>a <= b\<close> and \<^verbatim>\<open>a < b\<close>: false when either side is NaN; the two zeros are equal.\<close>

definition fle :: "number \<Rightarrow> number \<Rightarrow> bool" where
  "fle a b =
     (if isNaN a \<or> isNaN b then False
      else if a = NInf \<or> b = PInf then True
      else if a = PInf \<or> b = NInf then False
      else val a \<le> val b)"

definition flt :: "number \<Rightarrow> number \<Rightarrow> bool" where
  "flt a b =
     (if isNaN a \<or> isNaN b then False
      else if a = PInf \<or> b = NInf then False
      else if a = NInf \<or> b = PInf then True
      else val a < val b)"

subsection \<open>The library functions the widget calls\<close>

datatype error = RangeError | SyntaxError

text \<open>\<^verbatim>\<open>Math.floor\<close>: the floor of a binary64 number is a binary64 number.\<close>

fun Math_floor :: "number \<Rightarrow> number" where
  "Math_floor (Fin r) = Fin (of_int \<lfloor>r\<rfloor>)"
| "Math_floor a = a"

text \<open>\<^verbatim>\<open>BigInt(n)\<close> of a number: a RangeError unless the number is an integer.\<close>

fun BigInt_of_number :: "number \<Rightarrow> error + int" where
  "BigInt_of_number (Fin r) = (if of_int \<lfloor>r\<rfloor> = r then Inr \<lfloor>r\<rfloor> else Inl RangeError)"
| "BigInt_of_number NZero = Inr 0"
| "BigInt_of_number _ = Inl RangeError"

text \<open>
  \<^verbatim>\<open>Number(formatUnits(w, 18))\<close>: \<^verbatim>\<open>formatUnits\<close> writes the integer \<open>w\<close> as the exact
  decimal \<open>w / 10^18\<close>, and \<^verbatim>\<open>Number\<close> reads a decimal as the nearest number.
\<close>

definition Number_formatUnits :: "int \<Rightarrow> number" where
  "Number_formatUnits w = to_number (of_int w / 10 ^ 18)"

text \<open>
  A string that holds an amount in wei is represented by what \<^verbatim>\<open>BigInt(s)\<close> makes of
  it: \<open>Blank\<close> is the empty string (falsy in JavaScript), \<open>Digits w\<close> a non-empty string
  that \<^verbatim>\<open>BigInt\<close> reads as the integer \<open>w\<close>, \<open>Garbage\<close> a non-empty string on which
  \<^verbatim>\<open>BigInt\<close> throws a SyntaxError.
\<close>

datatype wei_string = Blank | Digits int | Garbage

fun BigInt_of_string :: "wei_string \<Rightarrow> error + int" where
  "BigInt_of_string Blank = Inr 0"
| "BigInt_of_string (Digits w) = Inr w"
| "BigInt_of_string Garbage = Inl SyntaxError"

section \<open>The token swap widget\<close>

record Token =
  name :: string
  symbol :: string
  image_url :: string
  price :: "wei_string option"
  totalUsdtRaised :: "wei_string option"
  userTokenBalance :: "wei_string option"

text \<open>\<^verbatim>\<open>token?.totalUsdtRaised\<close> of the prop \<^verbatim>\<open>token: Token | null\<close>.\<close>

definition token_totalUsdtRaised :: "Token option \<Rightarrow> wei_string option" where
  "token_totalUsdtRaised token = (case token of None \<Rightarrow> None | Some t \<Rightarrow> totalUsdtRaised t)"

text \<open>A string is truthy when it is defined and not empty.\<close>

fun truthy :: "wei_string option \<Rightarrow> bool" where
  "truthy None = False"
| "truthy (Some Blank) = False"
| "truthy (Some _) = True"

text \<open>\<^verbatim>\<open>s || "0"\<close>.\<close>

fun or_zero :: "wei_string option \<Rightarrow> wei_string" where
  "or_zero None = Digits 0"
| "or_zero (Some Blank) = Digits 0"
| "or_zero (Some s) = s"

definition VIRTUAL_USDT_RESERVE :: number where
  "VIRTUAL_USDT_RESERVE = Fin 6000"

definition VIRTUAL_TOKEN_RESERVE :: number where
  "VIRTUAL_TOKEN_RESERVE = Fin 1073000191"

definition BONDING_CURVE_K :: number where
  "BONDING_CURVE_K = fmul VIRTUAL_USDT_RESERVE VIRTUAL_TOKEN_RESERVE"

text \<open>
  \<^verbatim>\<open>getCurrentVirtualReserves\<close>: the pair \<^verbatim>\<open>{ virtualUsdtNatural, virtualTokensNatural }\<close>.
  \<^verbatim>\<open>token?.totalUsdtRaised || "0"\<close> replaces a missing or empty string by \<^verbatim>\<open>"0"\<close>; the
  \<^verbatim>\<open>catch\<close> branch is taken when \<^verbatim>\<open>BigInt\<close> throws.
\<close>

definition getCurrentVirtualReserves :: "Token option \<Rightarrow> number \<times> number" where
  "getCurrentVirtualReserves token =
     (let totalUsdtRaisedWei = or_zero (token_totalUsdtRaised token)
      in case BigInt_of_string totalUsdtRaisedWei of
           Inl e \<Rightarrow> (VIRTUAL_USDT_RESERVE, VIRTUAL_TOKEN_RESERVE)
         | Inr w \<Rightarrow>
             (let totalUsdtRaisedNatural = Number_formatUnits w;
                  virtualUsdtNatural = fadd VIRTUAL_USDT_RESERVE totalUsdtRaisedNatural;
                  virtualTokensNatural = fdiv BONDING_CURVE_K virtualUsdtNatural
              in (virtualUsdtNatural, virtualTokensNatural)))"

text \<open>
  \<^verbatim>\<open>calculateTokensToReceive(usdtAmountWei: bigint)\<close>, buying tokens. Nothing in its
  \<^verbatim>\<open>try\<close> block throws (number arithmetic never does, and \<^verbatim>\<open>getCurrentVirtualReserves\<close>
  catches its own error), so its \<^verbatim>\<open>catch\<close> branch returning 0 is never taken.
\<close>

definition calculateTokensToReceive :: "Token option \<Rightarrow> int \<Rightarrow> number" where
  "calculateTokensToReceive token usdtAmountWei =
     (case getCurrentVirtualReserves token of
        (virtualUsdtNatural, virtualTokensNatural) \<Rightarrow>
          (let usdtAmountNatural = Number_formatUnits usdtAmountWei;
               newVirtualUsdtNatural = fadd virtualUsdtNatural usdtAmountNatural;
               newVirtualTokensNatural = fdiv BONDING_CURVE_K newVirtualUsdtNatural;
               tokensToMintNatural = fsub virtualTokensNatural newVirtualTokensNatural
           in tokensToMintNatural))"

text \<open>\<^verbatim>\<open>calculateUsdtToReceive(tokenAmountNatural: number)\<close>, selling tokens.\<close>

definition calculateUsdtToReceive :: "Token option \<Rightarrow> number \<Rightarrow> number" where
  "calculateUsdtToReceive token tokenAmountNatural =
     (case getCurrentVirtualReserves token of
        (virtualUsdtNatural, virtualTokensNatural) \<Rightarrow>
          (let newVirtualTokensNatural = fadd virtualTokensNatural tokenAmountNatural;
               newVirtualUsdtNatural = fdiv BONDING_CURVE_K newVirtualTokensNatural;
               usdtToReturnNatural = fsub virtualUsdtNatural newVirtualUsdtNatural
           in usdtToReturnNatural))"

text \<open>
  The effect that recomputes the quote. \<open>fromAmount\<close> is the text of the input field:
  \<open>None\<close> for the empty string, \<open>Some v\<close> for a non-empty string with
  \<^verbatim>\<open>parseFloat(fromAmount) = v\<close>. The result is \<open>Inr None\<close> for \<^verbatim>\<open>setToAmount("")\<close>,
  \<open>Inr (Some x)\<close> for \<^verbatim>\<open>setToAmount(x.toFixed(6))\<close>, and \<open>Inl e\<close> when the effect
  throws: \<^verbatim>\<open>BigInt(Math.floor(fromValue * 1e18))\<close> is outside every \<^verbatim>\<open>try\<close>.
\<close>

definition quote_effect :: "number option \<Rightarrow> bool \<Rightarrow> Token option \<Rightarrow> error + number option" where
  "quote_effect fromAmount isTokenToUsdt token =
     (case fromAmount of
        None \<Rightarrow> Inr None
      | Some fromValue \<Rightarrow>
          if \<not> truthy (token_totalUsdtRaised token) then Inr None
          else if isNaN fromValue \<or> fle fromValue (Fin 0) then Inr None
          else if isTokenToUsdt then Inr (Some (calculateUsdtToReceive token fromValue))
          else (case BigInt_of_number (Math_floor (fmul fromValue (Fin (10 ^ 18)))) of
                  Inl e \<Rightarrow> Inl e
                | Inr usdtAmountWei \<Rightarrow> Inr (Some (calculateTokensToReceive token usdtAmountWei))))"

text \<open>\<^verbatim>\<open>getCurrentPriceNatural\<close>: the spot price \<^verbatim>\<open>virtualUsdtNatural / virtualTokensNatural\<close>.\<close>

definition getCurrentPriceNatural :: "Token option \<Rightarrow> number" where
  "getCurrentPriceNatural token =
     (case getCurrentVirtualReserves token of
        (virtualUsdtNatural, virtualTokensNatural) \<Rightarrow> fdiv virtualUsdtNatural virtualTokensNatural)"

text \<open>
  The reserves after the hypothetical trade, as the two functions compute them in their
  local variables \<^verbatim>\<open>newVirtualUsdtNatural\<close> and \<^verbatim>\<open>newVirtualTokensNatural\<close>.
\<close>

definition newReserves_buy :: "Token option \<Rightarrow> int \<Rightarrow> number \<times> number" where
  "newReserves_buy token usdtAmountWei =
     (case getCurrentVirtualReserves token of
        (virtualUsdtNatural, virtualTokensNatural) \<Rightarrow>
          (let usdtAmountNatural = Number_formatUnits usdtAmountWei;
               newVirtualUsdtNatural = fadd virtualUsdtNatural usdtAmountNatural;
               newVirtualTokensNatural = fdiv BONDING_CURVE_K newVirtualUsdtNatural
           in (newVirtualUsdtNatural, newVirtualTokensNatural)))"

definition newReserves_sell :: "Token option \<Rightarrow> number \<Rightarrow> number \<times> number" where
  "newReserves_sell token tokenAmountNatural =
     (case getCurrentVirtualReserves token of
        (virtualUsdtNatural, virtualTokensNatural) \<Rightarrow>
          (let newVirtualTokensNatural = fadd virtualTokensNatural tokenAmountNatural;
               newVirtualUsdtNatural = fdiv BONDING_CURVE_K newVirtualTokensNatural
           in (newVirtualUsdtNatural, newVirtualTokensNatural)))"

text \<open>A token whose only relevant field is the amount raised so far, in wei.\<close>

definition token_raised :: "int \<Rightarrow> Token option" where
  "token_raised w =
     Some \<lparr>name = ''T'', symbol = ''T'', image_url = '''', price = None,
           totalUsdtRaised = Some (Digits w), userTokenBalance = None\<rparr>"

section \<open>Properties of the rounding\<close>

subsection \<open>Powers of two\<close>

lemma pow2_pos [simp]: "0 < pow2 e"
  by (simp add: pow2_def)

lemma pow2_nonneg [simp]: "0 \<le> pow2 e"
  by (simp add: pow2_def)

lemma pow2_neq0 [simp]: "pow2 e \<noteq> 0"
  by (simp add: pow2_def)

lemma pow2_add: "pow2 (a + b) = pow2 a * pow2 b"
  by (simp add: pow2_def power_int_add)

lemma pow2_diff: "pow2 (a - b) = pow2 a / pow2 b"
  by (simp add: pow2_def power_int_diff)

lemma pow2_Suc: "pow2 (e + 1) = 2 * pow2 e"
  by (simp add: pow2_def power_int_add)

lemma pow2_mono: "a \<le> b \<Longrightarrow> pow2 a \<le> pow2 b"
  by (simp add: pow2_def power_int_increasing)

lemma pow2_strict_mono: "a < b \<Longrightarrow> pow2 a < pow2 b"
  by (simp add: pow2_def power_int_strict_increasing)

lemma pow2_le_iff: "pow2 a \<le> pow2 b \<longleftrightarrow> a \<le> b"
  using pow2_mono [of a b] pow2_strict_mono [of b a] by (auto simp: not_le [symmetric])

lemma pow2_less_iff: "pow2 a < pow2 b \<longleftrightarrow> a < b"
  using pow2_mono [of b a] pow2_strict_mono [of a b] by (auto simp: not_less [symmetric])

lemma pow2_nat: "0 \<le> e \<Longrightarrow> pow2 e = of_int (2 ^ nat e)"
  by (simp add: pow2_def power_int_def)

lemma pow2_numeral:
  "pow2 (numeral n) = 2 ^ numeral n"
  "pow2 0 = 1" "pow2 1 = 2"
  by (simp_all add: pow2_def)

lemma pow2_neg_numeral:
  "pow2 (- numeral n) = 1 / 2 ^ numeral n"
  "pow2 (- 1) = 1 / 2"
  by (simp_all add: pow2_def power_int_minus_divide)

subsection \<open>The binary exponent\<close>

lemma ilog2_bounds:
  assumes "0 < x"
  shows "pow2 (ilog2 x) \<le> x" and "x < pow2 (ilog2 x + 1)"
proof -
  have "pow2 (ilog2 x) \<le> x \<and> x < pow2 (ilog2 x + 1)"
  proof (cases "1 \<le> x")
    case True
    define n where "n = \<lfloor>x\<rfloor>"
    have n: "0 < n" "of_int n \<le> x" "x < of_int n + 1"
      using True by (simp_all add: n_def) linarith
    have b: "1 \<le> bitlen n"
      using n(1) bitlen_eq_zero_iff [of n] bitlen_nonneg [of n] by linarith
    from bitlen_bounds [OF n(1)]
    have "2 ^ nat (bitlen n - 1) \<le> n" "n + 1 \<le> 2 ^ nat (bitlen n)" by simp_all
    then have "(of_int (2 ^ nat (bitlen n - 1)) :: rat) \<le> of_int n"
      "(of_int (n + 1) :: rat) \<le> of_int (2 ^ nat (bitlen n))"
      by (simp_all only: of_int_le_iff)
    then have "pow2 (bitlen n - 1) \<le> of_int n" "of_int n + 1 \<le> pow2 (bitlen n - 1 + 1)"
      using b by (simp_all add: pow2_nat)
    then show ?thesis
      using True n by (simp add: ilog2_def n_def [symmetric])
  next
    case False
    define m where "m = \<lceil>1 / x\<rceil>"
    define c where "c = bitlen (m - 1)"
    have x1: "1 < 1 / x" using False assms by simp
    have m: "1 / x \<le> of_int m" "of_int m - 1 < 1 / x"
      by (simp_all add: m_def) linarith
    have m1: "0 < m - 1" using x1 m(1) by linarith
    have c1: "1 \<le> c"
      using m1 bitlen_eq_zero_iff [of "m - 1"] bitlen_nonneg [of "m - 1"]
      unfolding c_def by linarith
    from bitlen_bounds [OF m1]
    have "2 ^ nat (c - 1) \<le> m - 1" "m \<le> 2 ^ nat c" by (simp_all add: c_def)
    then have "(of_int (2 ^ nat (c - 1)) :: rat) \<le> of_int (m - 1)"
      "(of_int m :: rat) \<le> of_int (2 ^ nat c)"
      by (simp_all only: of_int_le_iff)
    then have "pow2 (c - 1) \<le> of_int m - 1" "of_int m \<le> pow2 c"
      using c1 by (simp_all add: pow2_nat)
    with m have lo: "1 / x \<le> pow2 c" and hi: "pow2 (c - 1) < 1 / x" by linarith+
    have "pow2 (- c) = 1 / pow2 c" "pow2 (- c + 1) = 1 / pow2 (c - 1)"
      using pow2_diff [of 0 c] pow2_diff [of 0 "c - 1"] by (simp_all add: pow2_numeral)
    moreover have "1 / pow2 c \<le> x"
      using lo assms by (simp add: field_simps)
    moreover have "x < 1 / pow2 (c - 1)"
      using hi assms by (simp add: field_simps)
    ultimately show ?thesis
      using False by (simp add: ilog2_def m_def [symmetric] c_def [symmetric])
  qed
  then show "pow2 (ilog2 x) \<le> x" and "x < pow2 (ilog2 x + 1)" by simp_all
qed

lemma ilog2_unique:
  assumes "pow2 e \<le> x" "x < pow2 (e + 1)"
  shows "ilog2 x = e"
proof -
  have x: "0 < x" using assms(1) pow2_pos [of e] by linarith
  have "pow2 e < pow2 (ilog2 x + 1)" "pow2 (ilog2 x) < pow2 (e + 1)"
    using ilog2_bounds [OF x] assms by linarith+
  then show ?thesis by (simp add: pow2_less_iff)
qed

lemma ilog2_mono:
  assumes "0 < x" "x \<le> y"
  shows "ilog2 x \<le> ilog2 y"
proof -
  have "pow2 (ilog2 x) < pow2 (ilog2 y + 1)"
    using ilog2_bounds(1) [OF assms(1)] ilog2_bounds(2) [of y] assms by linarith
  then show ?thesis by (simp add: pow2_less_iff)
qed

lemma ilog2_less:
  assumes "0 < x" "x < pow2 e"
  shows "ilog2 x < e"
proof -
  have "pow2 (ilog2 x) < pow2 e" using ilog2_bounds(1) [OF assms(1)] assms(2) by linarith
  then show ?thesis by (simp add: pow2_less_iff)
qed

lemma ilog2_ge:
  assumes "pow2 e \<le> x"
  shows "e \<le> ilog2 x"
proof -
  have x: "0 < x" using assms pow2_pos [of e] by linarith
  have "pow2 e < pow2 (ilog2 x + 1)" using ilog2_bounds(2) [OF x] assms by linarith
  then show ?thesis by (simp add: pow2_less_iff)
qed

subsection \<open>Rounding to the nearest integer, ties to even\<close>

lemma round_half_even_cases:
  "round_half_even x = \<lfloor>x\<rfloor> \<and> x - of_int \<lfloor>x\<rfloor> \<le> 1 / 2
   \<or> round_half_even x = \<lfloor>x\<rfloor> + 1 \<and> 1 / 2 \<le> x - of_int \<lfloor>x\<rfloor>"
  by (auto simp: round_half_even_def Let_def)

lemma round_half_even_of_int [simp]: "round_half_even (of_int n) = n"
  by (simp add: round_half_even_def)

lemma round_half_even_error: "\<bar>of_int (round_half_even x) - x\<bar> \<le> 1 / 2"
proof -
  have "of_int \<lfloor>x\<rfloor> \<le> x" "x < of_int \<lfloor>x\<rfloor> + 1" by linarith+
  then show ?thesis
    using round_half_even_cases [of x] by (auto simp: abs_le_iff)
qed

lemma round_half_even_mono:
  assumes "x \<le> y"
  shows "round_half_even x \<le> round_half_even y"
proof (cases "\<lfloor>x\<rfloor> = \<lfloor>y\<rfloor>")
  case True
  then show ?thesis
    using assms by (auto simp: round_half_even_def Let_def)
next
  case False
  then have "\<lfloor>x\<rfloor> + 1 \<le> \<lfloor>y\<rfloor>"
    using floor_mono [OF assms] by linarith
  moreover have "round_half_even x \<le> \<lfloor>x\<rfloor> + 1" "\<lfloor>y\<rfloor> \<le> round_half_even y"
    using round_half_even_cases [of x] round_half_even_cases [of y] by auto
  ultimately show ?thesis by linarith
qed

lemma round_half_even_minus: "round_half_even (- x) = - round_half_even x"
proof (cases "x = of_int \<lfloor>x\<rfloor>")
  case True
  then obtain n where "x = of_int n" ..
  then have "- x = of_int (- n)" by simp
  then show ?thesis
    using \<open>x = of_int n\<close> by (simp only: round_half_even_of_int)
next
  case False
  then have lt: "of_int \<lfloor>x\<rfloor> < x" "x < of_int \<lfloor>x\<rfloor> + 1"
    by (linarith, linarith)
  have fl: "\<lfloor>- x\<rfloor> = - \<lfloor>x\<rfloor> - 1"
    by (rule floor_unique) (use lt in simp_all)
  show ?thesis
    unfolding round_half_even_def Let_def fl using lt by auto
qed

lemma round_half_even_ge:
  assumes "of_int n \<le> x"
  shows "n \<le> round_half_even x"
  using round_half_even_mono [OF assms] by simp

lemma round_half_even_le:
  assumes "x \<le> of_int n"
  shows "round_half_even x \<le> n"
  using round_half_even_mono [OF assms] by simp

subsection \<open>Rounding a rational to binary64\<close>

lemma quantum_pos [simp]: "0 < quantum x"
  by (simp add: quantum_def)

lemma quantum_nonneg [simp]: "0 \<le> quantum x"
  by (simp add: quantum_def)

lemma quantum_minus [simp]: "quantum (- x) = quantum x"
  by (simp add: quantum_def)

lemma round_rat_0 [simp]: "round_rat 0 = 0"
  by (simp add: round_rat_def)

lemma round_rat_minus: "round_rat (- x) = - round_rat x"
  by (simp add: round_rat_def round_half_even_minus)

lemma quantum_eq:
  assumes "0 < x"
  shows "quantum x = pow2 (max (ilog2 x) (- 1022) - 52)"
  using assms by (simp add: quantum_def)

lemma pow2_53: "pow2 (e + 1) / pow2 (e - 52) = of_int (2 ^ 53)"
proof -
  have "pow2 (e + 1) = pow2 ((e - 52) + 53)" by (rule arg_cong [where f = pow2]) simp
  also have "\<dots> = pow2 (e - 52) * pow2 53" by (rule pow2_add)
  finally have "pow2 (e + 1) = pow2 (e - 52) * pow2 53" .
  then show ?thesis by (simp add: pow2_numeral)
qed

lemma pow2_52: "pow2 e / pow2 (e - 52) = of_int (2 ^ 52)"
proof -
  have "pow2 e = pow2 ((e - 52) + 52)" by (rule arg_cong [where f = pow2]) simp
  also have "\<dots> = pow2 (e - 52) * pow2 52" by (rule pow2_add)
  finally have "pow2 e = pow2 (e - 52) * pow2 52" .
  then show ?thesis by (simp add: pow2_numeral)
qed

lemma round_rat_nonneg:
  assumes "0 \<le> x"
  shows "0 \<le> round_rat x"
proof (cases "x = 0")
  case False
  have "of_int 0 \<le> x / quantum x" using assms by (simp add: divide_nonneg_pos)
  then have "0 \<le> round_half_even (x / quantum x)" by (rule round_half_even_ge)
  then have "0 \<le> (of_int (round_half_even (x / quantum x)) :: rat) * quantum x"
    by (intro mult_nonneg_nonneg) simp_all
  then show ?thesis using False by (simp add: round_rat_def)
qed simp

lemma round_rat_upper:
  assumes "0 < x"
  shows "round_rat x \<le> pow2 (max (ilog2 x) (- 1022) + 1)"
proof -
  define e where "e = max (ilog2 x) (- 1022)"
  have q: "quantum x = pow2 (e - 52)" using assms by (simp add: quantum_eq e_def)
  have "x < pow2 (ilog2 x + 1)" by (rule ilog2_bounds [OF assms])
  also have "\<dots> \<le> pow2 (e + 1)" by (rule pow2_mono) (simp add: e_def)
  finally have "x / pow2 (e - 52) \<le> pow2 (e + 1) / pow2 (e - 52)"
    by (simp add: divide_right_mono)
  then have "x / quantum x \<le> of_int (2 ^ 53)" by (simp only: q pow2_53)
  then have "round_half_even (x / quantum x) \<le> 2 ^ 53" by (rule round_half_even_le)
  then have "(of_int (round_half_even (x / quantum x)) :: rat) \<le> of_int (2 ^ 53)"
    by (simp only: of_int_le_iff)
  then have "of_int (round_half_even (x / quantum x)) * quantum x \<le> of_int (2 ^ 53) * pow2 (e - 52)"
    unfolding q by (rule mult_right_mono) simp
  also have "of_int (2 ^ 53) * pow2 (e - 52) = pow2 (e + 1)"
    using pow2_53 [of e] by (simp add: field_simps)
  finally show ?thesis using assms by (simp add: round_rat_def e_def)
qed

lemma round_rat_lower:
  assumes "0 < x" "- 1022 \<le> ilog2 x"
  shows "pow2 (ilog2 x) \<le> round_rat x"
proof -
  define e where "e = ilog2 x"
  have q: "quantum x = pow2 (e - 52)" using assms by (simp add: quantum_eq e_def max_def)
  have "pow2 e \<le> x" unfolding e_def by (rule ilog2_bounds [OF assms(1)])
  then have "pow2 e / pow2 (e - 52) \<le> x / pow2 (e - 52)"
    by (simp add: divide_right_mono)
  then have "of_int (2 ^ 52) \<le> x / quantum x" by (simp only: q pow2_52)
  then have "2 ^ 52 \<le> round_half_even (x / quantum x)" by (rule round_half_even_ge)
  then have "(of_int (2 ^ 52) :: rat) \<le> of_int (round_half_even (x / quantum x))"
    by (simp only: of_int_le_iff)
  then have "of_int (2 ^ 52) * pow2 (e - 52) \<le> of_int (round_half_even (x / quantum x)) * quantum x"
    unfolding q by (rule mult_right_mono) simp
  moreover have "of_int (2 ^ 52) * pow2 (e - 52) = pow2 e"
    using pow2_52 [of e] by (simp add: field_simps)
  ultimately show ?thesis using assms by (simp add: round_rat_def e_def)
qed

lemma round_rat_mono_pos:
  assumes "0 < x" "x \<le> y"
  shows "round_rat x \<le> round_rat y"
proof -
  have y: "0 < y" using assms by linarith
  define ex where "ex = max (ilog2 x) (- 1022)"
  define ey where "ey = max (ilog2 y) (- 1022)"
  have le: "ex \<le> ey" using ilog2_mono [OF assms] by (simp add: ex_def ey_def)
  show ?thesis
  proof (cases "ex = ey")
    case True
    then have q: "quantum y = quantum x" using assms y by (simp add: quantum_eq ex_def ey_def)
    have "x / quantum x \<le> y / quantum x"
      by (rule divide_right_mono) (use assms in \<open>simp_all add: less_imp_le\<close>)
    then have "round_half_even (x / quantum x) \<le> round_half_even (y / quantum x)"
      by (rule round_half_even_mono)
    then have "(of_int (round_half_even (x / quantum x)) :: rat) \<le> of_int (round_half_even (y / quantum x))"
      by (simp only: of_int_le_iff)
    then have "of_int (round_half_even (x / quantum x)) * quantum x
        \<le> of_int (round_half_even (y / quantum x)) * quantum x"
      by (rule mult_right_mono) simp
    then show ?thesis using assms y by (simp add: round_rat_def q)
  next
    case False
    with le have lt: "ex < ey" by simp
    then have iy: "ey = ilog2 y" "- 1022 \<le> ilog2 y" by (auto simp: ex_def ey_def max_def split: if_splits)
    have "round_rat x \<le> pow2 (ex + 1)" unfolding ex_def by (rule round_rat_upper [OF assms(1)])
    also have "\<dots> \<le> pow2 ey" by (rule pow2_mono) (use lt in simp)
    also have "\<dots> \<le> round_rat y" unfolding iy(1) by (rule round_rat_lower [OF y iy(2)])
    finally show ?thesis .
  qed
qed

lemma round_rat_mono:
  assumes "x \<le> y"
  shows "round_rat x \<le> round_rat y"
proof -
  consider "0 < x" | "y < 0" | "x \<le> 0" "0 \<le> y" by linarith
  then show ?thesis
  proof cases
    case 1
    then show ?thesis using assms by (rule round_rat_mono_pos)
  next
    case 2
    then have "round_rat (- y) \<le> round_rat (- x)"
      using assms by (intro round_rat_mono_pos) simp_all
    then show ?thesis by (simp add: round_rat_minus)
  next
    case 3
    have "0 \<le> round_rat (- x)" by (rule round_rat_nonneg) (use 3 in simp)
    then have "round_rat x \<le> 0" by (simp add: round_rat_minus)
    also have "0 \<le> round_rat y" by (rule round_rat_nonneg) (use 3 in simp)
    finally show ?thesis .
  qed
qed

lemma round_rat_eq:
  assumes "0 < x"
  shows "round_rat x = of_int (round_half_even (x / quantum x)) * quantum x"
  using assms by (simp add: round_rat_def)

lemma round_rat_idem_pos:
  assumes "0 < x"
  shows "round_rat (round_rat x) = round_rat x"
proof -
  define e where "e = max (ilog2 x) (- 1022)"
  define n where "n = round_half_even (x / quantum x)"
  define r where "r = round_rat x"
  have q: "quantum x = pow2 (e - 52)" using assms by (simp add: quantum_eq e_def)
  have r: "r = of_int n * pow2 (e - 52)"
    using assms by (simp add: r_def round_rat_eq n_def q)
  have r0: "0 \<le> r" unfolding r_def by (rule round_rat_nonneg) (use assms in simp)
  have up: "r \<le> pow2 (e + 1)" unfolding r_def e_def by (rule round_rat_upper [OF assms])
  show ?thesis
  proof (cases "r = 0")
    case True
    then show ?thesis by (simp add: r_def)
  next
    case False
    with r0 have rpos: "0 < r" by simp
    show ?thesis
    proof (cases "r < pow2 (e + 1)")
      case True
      have "max (ilog2 r) (- 1022) = e"
      proof (cases "- 1022 \<le> ilog2 x")
        case True
        then have e: "e = ilog2 x" by (simp add: e_def)
        have "pow2 e \<le> r" unfolding e r_def by (rule round_rat_lower [OF assms True])
        then have "ilog2 r = e" using \<open>r < pow2 (e + 1)\<close> by (rule ilog2_unique)
        then show ?thesis using True e by simp
      next
        case False
        then have e: "e = - 1022" by (simp add: e_def)
        have "ilog2 r < e + 1" using rpos True by (rule ilog2_less)
        then show ?thesis using e by simp
      qed
      then have qr: "quantum r = pow2 (e - 52)" using rpos by (simp add: quantum_eq)
      have "r / pow2 (e - 52) = of_int n" by (simp add: r)
      then have "r / quantum r = of_int n" by (simp only: qr)
      then have "round_rat r = of_int n * pow2 (e - 52)"
        using rpos by (simp only: round_rat_eq round_half_even_of_int qr)
      then show ?thesis using r by (simp add: r_def)
    next
      case False
      with up have re: "r = pow2 (e + 1)" by simp
      have "pow2 (e + 1) < pow2 (e + 1 + 1)" by (rule pow2_strict_mono) simp
      then have "ilog2 r = e + 1" by (intro ilog2_unique) (simp_all add: re)
      moreover have "- 1022 \<le> e" by (simp add: e_def)
      ultimately have "max (ilog2 r) (- 1022) = e + 1" by simp
      then have qr: "quantum r = pow2 (e + 1 - 52)" using rpos by (simp add: quantum_eq)
      have "pow2 (e + 1) / pow2 (e + 1 - 52) = of_int (2 ^ 52)" by (rule pow2_52)
      then have d: "r / pow2 (e + 1 - 52) = of_int (2 ^ 52)" by (simp only: re)
      have "round_rat r = of_int (2 ^ 52) * pow2 (e + 1 - 52)"
        using rpos by (simp only: round_rat_eq qr d round_half_even_of_int)
      also have "\<dots> = pow2 (e + 1)" using pow2_52 [of "e + 1"] by (simp add: field_simps)
      finally show ?thesis using re by (simp add: r_def)
    qed
  qed
qed

lemma round_rat_idem [simp]: "round_rat (round_rat x) = round_rat x"
proof -
  consider "0 < x" | "x = 0" | "x < 0" by linarith
  then show ?thesis
  proof cases
    case 1
    then show ?thesis by (rule round_rat_idem_pos)
  next
    case 2
    then show ?thesis by simp
  next
    case 3
    then have "round_rat (round_rat (- x)) = round_rat (- x)"
      by (intro round_rat_idem_pos) simp
    then show ?thesis by (simp add: round_rat_minus)
  qed
qed

text \<open>In the normal range the relative rounding error is at most \<open>2^-53\<close>.\<close>

lemma round_rat_error:
  assumes "pow2 (- 1022) \<le> x"
  shows "\<bar>round_rat x - x\<bar> \<le> x * pow2 (- 53)"
proof -
  define e where "e = ilog2 x"
  have x: "0 < x" using assms pow2_pos [of "- 1022"] by linarith
  have e: "- 1022 \<le> e" unfolding e_def using assms by (rule ilog2_ge)
  have q: "quantum x = pow2 (e - 52)" using x e by (simp add: quantum_eq e_def max_def)
  define n where "n = round_half_even (x / pow2 (e - 52))"
  have "\<bar>of_int n - x / pow2 (e - 52)\<bar> \<le> 1 / 2"
    unfolding n_def by (rule round_half_even_error)
  then have "\<bar>of_int n - x / pow2 (e - 52)\<bar> * pow2 (e - 52) \<le> 1 / 2 * pow2 (e - 52)"
    by (rule mult_right_mono) simp
  moreover have "\<bar>of_int n - x / pow2 (e - 52)\<bar> * pow2 (e - 52) = \<bar>of_int n * pow2 (e - 52) - x\<bar>"
  proof -
    have "\<bar>of_int n - x / pow2 (e - 52)\<bar> * pow2 (e - 52)
        = \<bar>(of_int n - x / pow2 (e - 52)) * pow2 (e - 52)\<bar>"
      by (simp add: abs_mult)
    also have "(of_int n - x / pow2 (e - 52)) * pow2 (e - 52) = of_int n * pow2 (e - 52) - x"
      by (simp add: field_simps)
    finally show ?thesis .
  qed
  ultimately have 1: "\<bar>of_int n * pow2 (e - 52) - x\<bar> \<le> 1 / 2 * pow2 (e - 52)"
    by (simp only:)
  have 2: "1 / 2 * pow2 (e - 52) = pow2 e * pow2 (- 53)"
  proof -
    have "pow2 (e - 52) = pow2 (e + (- 53) + 1)" by (rule arg_cong [where f = pow2]) simp
    also have "\<dots> = 2 * pow2 (e + (- 53))" by (rule pow2_Suc)
    also have "pow2 (e + (- 53)) = pow2 e * pow2 (- 53)" by (rule pow2_add)
    finally show ?thesis by simp
  qed
  have 3: "pow2 e * pow2 (- 53) \<le> x * pow2 (- 53)"
    by (rule mult_right_mono) (use ilog2_bounds(1) [OF x] in \<open>simp_all add: e_def\<close>)
  have 4: "round_rat x = of_int n * pow2 (e - 52)"
    using x by (simp add: round_rat_eq q n_def)
  from 1 have "\<bar>round_rat x - x\<bar> \<le> pow2 e * pow2 (- 53)" by (simp only: 2 4)
  then show ?thesis using 3 by (rule order_trans)
qed

subsection \<open>Numbers\<close>

lemma to_number_Fin:
  assumes "is_double (Fin r)"
  shows "to_number r = Fin r"
  using assms by (auto simp: to_number_def Let_def abs_less_iff)

lemma is_double_to_number [simp]: "is_double (to_number x)"
  using pow2_pos [of 1024] by (auto simp: to_number_def Let_def abs_less_iff not_le)

lemma to_number_0 [simp]: "to_number 0 = Fin 0"
  by (simp add: to_number_def not_le)

lemma to_number_mono:
  assumes "x \<le> y"
  shows "fle (to_number x) (to_number y)"
proof -
  have "round_rat x \<le> round_rat y" using assms by (rule round_rat_mono)
  moreover have "- pow2 1024 < pow2 1024" using pow2_pos [of 1024] by linarith
  ultimately show ?thesis
    by (auto simp: to_number_def Let_def fle_def)
qed

lemma is_double_0 [simp]: "is_double (Fin 0)"
proof -
  have "\<bar>0 :: rat\<bar> < pow2 1024" by (simp only: abs_zero pow2_pos)
  then show ?thesis by (simp only: is_double.simps round_rat_0)
qed

lemma is_double_fneg: "is_double a \<Longrightarrow> is_double (fneg a)"
  by (cases a) (simp_all add: round_rat_minus)

lemma is_double_fadd: "is_double a \<Longrightarrow> is_double b \<Longrightarrow> is_double (fadd a b)"
  by (cases a; cases b) (simp_all add: fadd_def signed_zero_def)

lemma is_double_fsub: "is_double a \<Longrightarrow> is_double b \<Longrightarrow> is_double (fsub a b)"
  by (simp add: fsub_def is_double_fadd is_double_fneg)

lemma is_double_fmul: "is_double a \<Longrightarrow> is_double b \<Longrightarrow> is_double (fmul a b)"
  by (cases a; cases b) (simp_all add: fmul_def signed_zero_def signed_inf_def)

lemma is_double_fdiv: "is_double a \<Longrightarrow> is_double b \<Longrightarrow> is_double (fdiv a b)"
  by (cases a; cases b) (simp_all add: fdiv_def signed_zero_def signed_inf_def)

subsection \<open>Evaluating the rounding on numerals\<close>

lemma floor_rat_numeral:
  "\<lfloor>numeral a / numeral b :: rat\<rfloor> = numeral a div numeral b"
  "\<lfloor>- (numeral a / numeral b) :: rat\<rfloor> = - numeral a div numeral b"
  "\<lfloor>1 / numeral b :: rat\<rfloor> = 1 div numeral b"
  "\<lfloor>- (1 / numeral b) :: rat\<rfloor> = - 1 div numeral b"
     apply (metis floor_divide_of_int_eq of_int_numeral)
    apply (metis divide_minus_left floor_divide_of_int_eq of_int_neg_numeral of_int_numeral)
   apply (metis floor_divide_of_int_eq of_int_numeral of_int_1)
  apply (metis divide_minus_left floor_divide_of_int_eq of_int_minus of_int_numeral of_int_1)
  done

lemma ceiling_rat_numeral:
  "\<lceil>numeral a / numeral b :: rat\<rceil> = - (- numeral a div numeral b)"
  "\<lceil>1 / numeral b :: rat\<rceil> = - (- 1 div numeral b)"
  by (simp_all add: ceiling_def floor_rat_numeral flip: minus_divide_left)

lemma bitlen_numeral:
  "bitlen (numeral n) = bitlen (numeral n div 2) + 1"
  "bitlen 1 = 1"
  by (subst compute_bitlen, simp)+

lemmas number_eval =
  pow2_numeral pow2_neg_numeral floor_rat_numeral ceiling_rat_numeral bitlen_numeral
  ilog2_def quantum_def round_rat_def round_half_even_def
  to_number_def Let_def fadd_def fsub_def fmul_def fdiv_def fle_def flt_def
  signed_inf_def signed_zero_def Number_formatUnits_def

subsection \<open>Arithmetic on finite numbers\<close>

lemma fadd_Fin: "fadd (Fin x) (Fin y) = to_number (x + y)"
  by (simp add: fadd_def signed_zero_def)

lemma fsub_Fin: "fsub (Fin x) (Fin y) = to_number (x - y)"
  by (simp add: fsub_def fadd_def signed_zero_def)

lemma fdiv_Fin: "0 < x \<Longrightarrow> 0 < y \<Longrightarrow> fdiv (Fin x) (Fin y) = to_number (x / y)"
  by (simp add: fdiv_def)

lemma fmul_Fin: "0 < x \<Longrightarrow> 0 < y \<Longrightarrow> fmul (Fin x) (Fin y) = to_number (x * y)"
  by (simp add: fmul_def)

lemma nonneg_to_number:
  assumes "0 \<le> x"
  shows "nonneg_num (to_number x)"
proof -
  have "0 \<le> round_rat x" using assms by (rule round_rat_nonneg)
  moreover have "0 < pow2 1024" by simp
  ultimately show ?thesis using assms by (auto simp: to_number_def Let_def)
qed

lemma nonneg_num_cases [consumes 1, case_names PInf Fin]:
  assumes "nonneg_num a"
  obtains "a = PInf" | r where "a = Fin r" "0 \<le> r"
  using assms by (cases a) auto

lemma fle_Fin [simp]: "fle (Fin x) (Fin y) \<longleftrightarrow> x \<le> y"
  by (simp add: fle_def)

lemma flt_Fin [simp]: "flt (Fin x) (Fin y) \<longleftrightarrow> x < y"
  by (simp add: flt_def)

lemma fle_PInf [simp]: "fle a PInf \<longleftrightarrow> \<not> isNaN a"
  by (cases a) (simp_all add: fle_def)

lemma fle_NInf [simp]: "fle NInf a \<longleftrightarrow> \<not> isNaN a"
  by (cases a) (simp_all add: fle_def)

lemma fle_PInf_left [simp]: "fle PInf a \<longleftrightarrow> a = PInf"
  by (cases a) (simp_all add: fle_def)

lemma not_NaN_to_number [simp]: "\<not> isNaN (to_number x)"
  by (simp add: to_number_def Let_def)

lemma to_number_neq_NaN [simp]: "to_number x \<noteq> NaN"
  by (simp add: to_number_def Let_def)

lemma fle_trans: "fle a b \<Longrightarrow> fle b c \<Longrightarrow> fle a c"
  by (cases a; cases b; cases c) (simp_all add: fle_def)

lemma fle_refl: "\<not> isNaN a \<Longrightarrow> fle a a"
  by (cases a) (simp_all add: fle_def)

lemma to_number_le_Fin:
  assumes "x \<le> y" "is_double (Fin y)"
  shows "fle (to_number x) (Fin y)"
  using to_number_mono [OF assms(1)] to_number_Fin [OF assms(2)] by simp

lemma Fin_le_to_number:
  assumes "x \<le> y" "is_double (Fin x)"
  shows "fle (Fin x) (to_number y)"
  using to_number_mono [OF assms(1)] to_number_Fin [OF assms(2)] by simp

section \<open>Properties of the widget\<close>

subsection \<open>The constants and the reserves\<close>

lemma is_double_6000: "is_double (Fin 6000)"
  by (simp add: number_eval)

lemma is_double_K: "is_double (Fin 6438001146000)"
  by (simp add: number_eval)

lemma is_double_1073000191: "is_double (Fin 1073000191)"
  by (simp add: number_eval)

lemma BONDING_CURVE_K_eq: "BONDING_CURVE_K = Fin 6438001146000"
proof -
  have "fmul (Fin 6000) (Fin 1073000191) = to_number (6000 * 1073000191)"
    by (rule fmul_Fin) simp_all
  also have "\<dots> = Fin 6438001146000"
    using to_number_Fin [OF is_double_K] by simp
  finally show ?thesis
    by (simp add: BONDING_CURVE_K_def VIRTUAL_USDT_RESERVE_def VIRTUAL_TOKEN_RESERVE_def)
qed

lemma fallback_reserves: "fdiv BONDING_CURVE_K (Fin 6000) = Fin 1073000191"
proof -
  have "fdiv (Fin 6438001146000) (Fin 6000) = to_number (6438001146000 / 6000)"
    by (rule fdiv_Fin) simp_all
  also have "\<dots> = Fin 1073000191"
    using to_number_Fin [OF is_double_1073000191] by simp
  finally show ?thesis by (simp add: BONDING_CURVE_K_eq)
qed

lemma reserves_Digits:
  assumes "token_totalUsdtRaised token = Some (Digits w)"
  shows "getCurrentVirtualReserves token =
    (fadd (Fin 6000) (Number_formatUnits w),
     fdiv BONDING_CURVE_K (fadd (Fin 6000) (Number_formatUnits w)))"
  using assms by (simp add: getCurrentVirtualReserves_def VIRTUAL_USDT_RESERVE_def Let_def)

lemma reserves_Garbage:
  assumes "token_totalUsdtRaised token = Some Garbage"
  shows "getCurrentVirtualReserves token = (Fin 6000, Fin 1073000191)"
  using assms
  by (simp add: getCurrentVirtualReserves_def VIRTUAL_USDT_RESERVE_def VIRTUAL_TOKEN_RESERVE_def)

lemma Number_formatUnits_0: "Number_formatUnits 0 = Fin 0"
  by (simp add: Number_formatUnits_def)

lemma reserves_initial:
  assumes "or_zero (token_totalUsdtRaised token) = Digits 0"
  shows "getCurrentVirtualReserves token = (Fin 6000, Fin 1073000191)"
proof -
  have "fadd (Fin 6000) (Fin 0) = Fin 6000"
    using to_number_Fin [OF is_double_6000] by (simp add: fadd_Fin)
  then show ?thesis
    using assms fallback_reserves
    by (simp add: getCurrentVirtualReserves_def VIRTUAL_USDT_RESERVE_def Let_def
        Number_formatUnits_0)
qed

lemma reserves_snd:
  assumes "getCurrentVirtualReserves token = (vq, vb)"
  shows "vb = fdiv BONDING_CURVE_K vq"
proof (cases "BigInt_of_string (or_zero (token_totalUsdtRaised token))")
  case (Inl e)
  then have "vq = Fin 6000" "vb = Fin 1073000191"
    using assms
    by (simp_all add: getCurrentVirtualReserves_def VIRTUAL_USDT_RESERVE_def
        VIRTUAL_TOKEN_RESERVE_def)
  then show ?thesis by (simp add: fallback_reserves)
next
  case (Inr w)
  then show ?thesis
    using assms by (auto simp: getCurrentVirtualReserves_def Let_def)
qed

lemma is_double_Number_formatUnits [simp]: "is_double (Number_formatUnits w)"
  by (simp add: Number_formatUnits_def)

lemma reserves_is_double:
  assumes "getCurrentVirtualReserves token = (vq, vb)"
  shows "is_double vq" "is_double vb"
proof -
  have K: "is_double BONDING_CURVE_K" by (simp only: BONDING_CURVE_K_eq is_double_K)
  show vq: "is_double vq"
  proof (cases "BigInt_of_string (or_zero (token_totalUsdtRaised token))")
    case (Inl e)
    then have "vq = Fin 6000"
      using assms by (simp add: getCurrentVirtualReserves_def VIRTUAL_USDT_RESERVE_def)
    then show ?thesis by (simp only: is_double_6000)
  next
    case (Inr w)
    then have "vq = fadd (Fin 6000) (Number_formatUnits w)"
      using assms
      by (auto simp: getCurrentVirtualReserves_def Let_def VIRTUAL_USDT_RESERVE_def)
    then show ?thesis
      using is_double_fadd [OF is_double_6000 is_double_Number_formatUnits] by (simp only:)
  qed
  show "is_double vb"
    unfolding reserves_snd [OF assms] using K vq by (rule is_double_fdiv)
qed

lemma buy_eq:
  assumes "getCurrentVirtualReserves token = (vq, vb)"
  shows "calculateTokensToReceive token wei =
    fsub vb (fdiv BONDING_CURVE_K (fadd vq (Number_formatUnits wei)))"
  using assms by (simp add: calculateTokensToReceive_def Let_def)

lemma sell_eq:
  assumes "getCurrentVirtualReserves token = (vq, vb)"
  shows "calculateUsdtToReceive token t = fsub vq (fdiv BONDING_CURVE_K (fadd vb t))"
  using assms by (simp add: calculateUsdtToReceive_def Let_def)

lemma token_raised_field [simp]: "token_totalUsdtRaised (token_raised w) = Some (Digits w)"
  by (simp add: token_raised_def token_totalUsdtRaised_def)

lemma reserves_raised_0: "getCurrentVirtualReserves (token_raised 0) = (Fin 6000, Fin 1073000191)"
  by (rule reserves_initial) simp

subsection \<open>Monotonicity of the arithmetic\<close>

lemma fle_not_NaN: "fle a b \<Longrightarrow> \<not> isNaN a \<and> \<not> isNaN b"
  by (auto simp: fle_def split: if_splits)

lemma fadd_Fin_finite:
  assumes "is_finite a"
  shows "fadd (Fin x) a = to_number (x + val a)"
  using assms by (cases a) (simp_all add: fadd_def signed_zero_def)

lemma fle_val:
  assumes "is_finite a" "is_finite b"
  shows "fle a b \<longleftrightarrow> val a \<le> val b"
  using assms by (cases a; cases b) (simp_all add: fle_def)

lemma fadd_mono:
  assumes "fle a b"
  shows "fle (fadd (Fin x) a) (fadd (Fin x) b)"
proof -
  have nn: "\<not> isNaN a" "\<not> isNaN b" using fle_not_NaN [OF assms] by simp_all
  show ?thesis
  proof (cases "is_finite a \<and> is_finite b")
    case True
    then have "val a \<le> val b" using assms by (simp add: fle_val)
    then have "fle (to_number (x + val a)) (to_number (x + val b))"
      by (intro to_number_mono) simp
    then show ?thesis using True by (simp add: fadd_Fin_finite)
  next
    case False
    then show ?thesis
      using assms nn by (cases a; cases b) (simp_all add: fadd_def fle_def signed_zero_def)
  qed
qed

lemma fneg_antimono:
  assumes "fle a b"
  shows "fle (fneg b) (fneg a)"
  using assms by (cases a; cases b) (simp_all add: fle_def split: if_splits)

lemma fsub_antimono:
  assumes "fle a b"
  shows "fle (fsub (Fin x) b) (fsub (Fin x) a)"
  unfolding fsub_def by (intro fadd_mono fneg_antimono assms)

lemma nonneg_num_fle_0: "nonneg_num a \<Longrightarrow> fle (Fin 0) a"
  by (cases a) (simp_all add: fle_def)

lemma fdiv_nonneg:
  assumes "0 < k" "nonneg_num a"
  shows "nonneg_num (fdiv (Fin k) a)"
  using assms(2)
proof (cases rule: nonneg_num_cases)
  case PInf
  then show ?thesis using assms by (simp add: fdiv_def signed_zero_def)
next
  case 2: (Fin r)
  show ?thesis
  proof (cases "r = 0")
    case True
    then show ?thesis using 2 assms by (simp add: fdiv_def signed_inf_def)
  next
    case False
    then have "0 < r" using 2 by simp
    then have "fdiv (Fin k) a = to_number (k / r)"
      using 2 assms by (simp add: fdiv_Fin)
    then show ?thesis using assms \<open>0 < r\<close> by (simp add: nonneg_to_number)
  qed
qed

lemma fdiv_antimono:
  assumes "0 < k" "nonneg_num a" "nonneg_num b" "fle a b"
  shows "fle (fdiv (Fin k) b) (fdiv (Fin k) a)"
proof -
  note nb = assms(3)
  from assms(2) show ?thesis
  proof (cases rule: nonneg_num_cases)
    case PInf
    then have "b = PInf" using assms(4) by simp
    then show ?thesis using PInf assms(1) by (simp add: fdiv_def signed_zero_def)
  next
    case a: (Fin r)
    show ?thesis
    proof (cases "r = 0")
      case True
      then have "fdiv (Fin k) a = PInf" using a assms by (simp add: fdiv_def signed_inf_def)
      moreover have "\<not> isNaN (fdiv (Fin k) b)"
        using fdiv_nonneg [OF assms(1) nb] by (cases "fdiv (Fin k) b") simp_all
      ultimately show ?thesis by simp
    next
      case False
      then have r: "0 < r" using a by simp
      have fa: "fdiv (Fin k) a = to_number (k / r)" using a r assms by (simp add: fdiv_Fin)
      from nb show ?thesis
      proof (cases rule: nonneg_num_cases)
        case PInf
        have "fle (to_number 0) (to_number (k / r))"
          by (rule to_number_mono) (use r assms in simp)
        then show ?thesis using PInf fa assms(1) by (simp add: fdiv_def signed_zero_def)
      next
        case b: (Fin s)
        then have s: "r \<le> s" using a assms(4) by simp
        then have "k / s \<le> k / r" using r assms(1) by (simp add: frac_le)
        then have "fle (to_number (k / s)) (to_number (k / r))" by (rule to_number_mono)
        moreover have "fdiv (Fin k) b = to_number (k / s)"
          using b r s assms by (simp add: fdiv_Fin)
        ultimately show ?thesis using fa by simp
      qed
    qed
  qed
qed

lemma fdiv_mono2:
  assumes "nonneg_num a" "a \<noteq> Fin 0" "fle a a'" "is_finite b" "nonneg_num b'" "fle b' b"
  shows "fle (fdiv a b) (fdiv a' b')"
proof -
  have a': "nonneg_num a'" "a' \<noteq> Fin 0"
    using assms(1,2,3) by (cases a; cases a'; simp add: fle_def split: if_splits)+
  obtain s' where b': "b' = Fin s'" "0 \<le> s'"
    using assms(4,5,6) by (cases b; cases b') (simp_all add: fle_def split: if_splits)
  show ?thesis
  proof (cases "s' = 0")
    case True
    then have "fdiv a' b' = PInf"
      using a' b' by (cases a') (simp_all add: fdiv_def signed_inf_def)
    moreover have "\<not> isNaN (fdiv a b)"
      using assms(1,2,4) by (cases a; cases b) (simp_all add: fdiv_def signed_inf_def signed_zero_def)
    ultimately show ?thesis by simp
  next
    case False
    then have s': "0 < s'" using b' by simp
    obtain s where b: "b = Fin s" "s' \<le> s"
      using assms(4,6) b' s' by (cases b) (simp_all add: fle_def)
    have s: "0 < s" using b s' by simp
    from a'(1) show ?thesis
    proof (cases rule: nonneg_num_cases)
      case PInf
      moreover have "\<not> isNaN (fdiv a b)"
        using assms(1,2) b s by (cases a) (simp_all add: fdiv_def signed_inf_def)
      ultimately show ?thesis using b' s' by (simp add: fdiv_def signed_inf_def)
    next
      case (Fin r')
      then have r': "0 < r'" using a'(2) by simp
      obtain r where a: "a = Fin r" "0 < r" "r \<le> r'"
        using assms(1,2,3) Fin by (cases a) (simp_all add: fle_def)
      have "r / s \<le> r' / s'" using a s s' b by (intro frac_le) simp_all
      then have "fle (to_number (r / s)) (to_number (r' / s'))" by (rule to_number_mono)
      then show ?thesis using a b b' Fin r' s s' by (simp add: fdiv_Fin)
    qed
  qed
qed

subsection \<open>Bounds and monotonicity of the quotes\<close>

lemma fdiv_K_nonneg:
  assumes "nonneg_num a"
  shows "nonneg_num (fdiv BONDING_CURVE_K a)"
  unfolding BONDING_CURVE_K_eq by (rule fdiv_nonneg [OF _ assms]) simp

lemma fdiv_K_antimono:
  assumes "nonneg_num a" "nonneg_num b" "fle a b"
  shows "fle (fdiv BONDING_CURVE_K b) (fdiv BONDING_CURVE_K a)"
  unfolding BONDING_CURVE_K_eq by (rule fdiv_antimono [OF _ assms]) simp

lemma fadd_nonneg:
  assumes "0 \<le> x" "nonneg_num a"
  shows "nonneg_num (fadd (Fin x) a)"
  using assms(2)
proof (cases rule: nonneg_num_cases)
  case PInf
  then show ?thesis by (simp add: fadd_def)
next
  case (Fin r)
  then show ?thesis using assms(1) by (simp add: fadd_Fin nonneg_to_number)
qed

lemma pos_nonneg:
  assumes "flt (Fin 0) a"
  shows "nonneg_num a"
  using assms by (cases a) (simp_all add: flt_def)

lemma pos_mono:
  assumes "flt (Fin 0) a" "fle a b"
  shows "flt (Fin 0) b"
  using assms by (cases a; cases b) (simp_all add: flt_def fle_def)

lemma nonneg_Number_formatUnits:
  assumes "0 \<le> w"
  shows "nonneg_num (Number_formatUnits w)"
  unfolding Number_formatUnits_def by (rule nonneg_to_number) (use assms in simp)

lemma Number_formatUnits_mono:
  assumes "w \<le> w'"
  shows "fle (Number_formatUnits w) (Number_formatUnits w')"
  unfolding Number_formatUnits_def
  by (rule to_number_mono) (use assms in \<open>simp add: divide_right_mono\<close>)

lemma fadd_Fin_0:
  assumes "is_double (Fin x)"
  shows "fadd (Fin x) (Fin 0) = Fin x"
  using to_number_Fin [OF assms] by (simp add: fadd_Fin)

lemma fsub_Fin_0:
  assumes "is_double (Fin x)"
  shows "fsub (Fin x) (Fin 0) = Fin x"
  using to_number_Fin [OF assms] by (simp add: fsub_Fin)

lemma fsub_self: "fsub (Fin x) (Fin x) = Fin 0"
  by (simp add: fsub_Fin)

text \<open>The new reserve of the side that receives the input is at least the current one.\<close>

lemma fadd_increases:
  assumes "is_double (Fin x)" "nonneg_num a"
  shows "fle (Fin x) (fadd (Fin x) a)"
proof -
  have "fle (fadd (Fin x) (Fin 0)) (fadd (Fin x) a)"
    by (rule fadd_mono) (rule nonneg_num_fle_0 [OF assms(2)])
  then show ?thesis by (simp only: fadd_Fin_0 [OF assms(1)])
qed

lemma sell_le_quote:
  assumes res: "getCurrentVirtualReserves token = (Fin q, Fin b)"
    and "0 \<le> b" "nonneg_num a"
  shows "fle (calculateUsdtToReceive token a) (Fin q)"
proof -
  have dq: "is_double (Fin q)" using reserves_is_double(1) [OF res] .
  have "nonneg_num (fadd (Fin b) a)"
    using assms(2,3) by (rule fadd_nonneg)
  then have "nonneg_num (fdiv BONDING_CURVE_K (fadd (Fin b) a))"
    by (rule fdiv_K_nonneg)
  then have "fle (Fin 0) (fdiv BONDING_CURVE_K (fadd (Fin b) a))"
    by (rule nonneg_num_fle_0)
  then have "fle (fsub (Fin q) (fdiv BONDING_CURVE_K (fadd (Fin b) a))) (fsub (Fin q) (Fin 0))"
    by (rule fsub_antimono)
  then show ?thesis
    by (simp only: sell_eq [OF res] fsub_Fin_0 [OF dq])
qed

lemma buy_bounds:
  assumes res: "getCurrentVirtualReserves token = (Fin q, Fin b)"
    and "0 < q" "0 \<le> wei"
  shows "fle (Fin 0) (calculateTokensToReceive token wei)"
    and "fle (calculateTokensToReceive token wei) (Fin b)"
proof -
  have dq: "is_double (Fin q)" and db: "is_double (Fin b)"
    using reserves_is_double [OF res] .
  have vb: "Fin b = fdiv BONDING_CURVE_K (Fin q)" using reserves_snd [OF res] .
  define amt where "amt = Number_formatUnits wei"
  define nvq where "nvq = fadd (Fin q) amt"
  define nvb where "nvb = fdiv BONDING_CURVE_K nvq"
  have amt: "nonneg_num amt" unfolding amt_def by (rule nonneg_Number_formatUnits) fact
  have q_le: "fle (Fin q) nvq" unfolding nvq_def by (rule fadd_increases [OF dq amt])
  have nq: "nonneg_num (Fin q)" using assms by simp
  have nnvq: "nonneg_num nvq" unfolding nvq_def by (rule fadd_nonneg [OF _ amt]) (use assms in simp)
  have "fle (fdiv BONDING_CURVE_K nvq) (fdiv BONDING_CURVE_K (Fin q))"
    using nq nnvq q_le by (rule fdiv_K_antimono)
  then have le: "fle nvb (Fin b)" by (simp only: nvb_def vb)
  have "nonneg_num nvb" unfolding nvb_def using nnvq by (rule fdiv_K_nonneg)
  then have ge: "fle (Fin 0) nvb" by (rule nonneg_num_fle_0)
  have out: "calculateTokensToReceive token wei = fsub (Fin b) nvb"
    by (simp only: buy_eq [OF res] nvb_def nvq_def amt_def)
  have "fle (fsub (Fin b) (Fin b)) (fsub (Fin b) nvb)" using le by (rule fsub_antimono)
  then show "fle (Fin 0) (calculateTokensToReceive token wei)"
    by (simp only: out fsub_self)
  have "fle (fsub (Fin b) nvb) (fsub (Fin b) (Fin 0))" using ge by (rule fsub_antimono)
  then show "fle (calculateTokensToReceive token wei) (Fin b)"
    by (simp only: out fsub_Fin_0 [OF db])
qed

lemma sell_mono:
  assumes res: "getCurrentVirtualReserves token = (Fin q, Fin b)"
    and "0 \<le> b" "flt (Fin 0) a" "fle a a'"
  shows "fle (calculateUsdtToReceive token a) (calculateUsdtToReceive token a')"
proof -
  have na: "nonneg_num a" using assms(3) by (rule pos_nonneg)
  have na': "nonneg_num a'" using pos_mono [OF assms(3,4)] by (rule pos_nonneg)
  have "fle (fadd (Fin b) a) (fadd (Fin b) a')" using assms(4) by (rule fadd_mono)
  then have "fle (fdiv BONDING_CURVE_K (fadd (Fin b) a')) (fdiv BONDING_CURVE_K (fadd (Fin b) a))"
    by (intro fdiv_K_antimono fadd_nonneg assms(2) na na')
  then have "fle (fsub (Fin q) (fdiv BONDING_CURVE_K (fadd (Fin b) a)))
      (fsub (Fin q) (fdiv BONDING_CURVE_K (fadd (Fin b) a')))"
    by (rule fsub_antimono)
  then show ?thesis by (simp only: sell_eq [OF res])
qed

lemma buy_mono:
  assumes res: "getCurrentVirtualReserves token = (Fin q, Fin b)"
    and "0 \<le> q" "0 \<le> w" "w \<le> w'"
  shows "fle (calculateTokensToReceive token w) (calculateTokensToReceive token w')"
proof -
  have w': "0 \<le> w'" using assms by simp
  have "fle (fadd (Fin q) (Number_formatUnits w)) (fadd (Fin q) (Number_formatUnits w'))"
    by (rule fadd_mono) (rule Number_formatUnits_mono [OF assms(4)])
  then have "fle (fdiv BONDING_CURVE_K (fadd (Fin q) (Number_formatUnits w')))
      (fdiv BONDING_CURVE_K (fadd (Fin q) (Number_formatUnits w)))"
    by (intro fdiv_K_antimono fadd_nonneg nonneg_Number_formatUnits assms(2,3) w')
  then have "fle (fsub (Fin b) (fdiv BONDING_CURVE_K (fadd (Fin q) (Number_formatUnits w))))
      (fsub (Fin b) (fdiv BONDING_CURVE_K (fadd (Fin q) (Number_formatUnits w'))))"
    by (rule fsub_antimono)
  then show ?thesis by (simp only: buy_eq [OF res])
qed

section \<open>The claims\<close>

subsection \<open>Evaluating the effect\<close>

lemmas fin_eval = fadd_Fin fsub_Fin fdiv_Fin fmul_Fin

lemma quote_effect_buy:
  assumes "truthy (token_totalUsdtRaised token)" "\<not> isNaN v" "\<not> fle v (Fin 0)"
    and "BigInt_of_number (Math_floor (fmul v (Fin (10 ^ 18)))) = Inr wei"
  shows "quote_effect (Some v) False token = Inr (Some (calculateTokensToReceive token wei))"
  using assms by (simp add: quote_effect_def)

lemma quote_effect_sell:
  assumes "truthy (token_totalUsdtRaised token)" "\<not> isNaN v" "\<not> fle v (Fin 0)"
  shows "quote_effect (Some v) True token = Inr (Some (calculateUsdtToReceive token v))"
  using assms by (simp add: quote_effect_def)

text \<open>
  C1, as the code has it. Buying with \<open>usdtAmountWei\<close> returns
  \<open>virtualBase - invariantK / (virtualQuote + quoteAmount)\<close>, every operation rounded to
  binary64, where \<open>invariantK = 6000 * 1073000191\<close>, \<open>virtualQuote = 6000 + raised\<close>,
  \<open>virtualBase = invariantK / virtualQuote\<close> and \<open>quoteAmount\<close> is the wei amount divided
  by \<open>10^18\<close>. With nothing raised and 100 USDT the new virtual quote reserve is 6100 and
  the output is \<open>147557016167609 / 2^23\<close>, about 17,590,167.07 tokens.
\<close>

theorem buy_quote_formula:
  assumes "token_totalUsdtRaised token = Some (Digits w)"
  shows "calculateTokensToReceive token usdtAmountWei =
      (let invariantK = Fin (6000 * 1073000191);
           virtualQuote = fadd (Fin 6000) (Number_formatUnits w);
           virtualBase = fdiv invariantK virtualQuote;
           quoteAmount = Number_formatUnits usdtAmountWei
       in fsub virtualBase (fdiv invariantK (fadd virtualQuote quoteAmount)))
    \<and> fadd (Fin 6000) (Number_formatUnits (100 * 10 ^ 18)) = Fin 6100
    \<and> calculateTokensToReceive (token_raised 0) (100 * 10 ^ 18)
        = Fin (147557016167609 / 8388608)"
proof (intro conjI)
  show "calculateTokensToReceive token usdtAmountWei =
      (let invariantK = Fin (6000 * 1073000191);
           virtualQuote = fadd (Fin 6000) (Number_formatUnits w);
           virtualBase = fdiv invariantK virtualQuote;
           quoteAmount = Number_formatUnits usdtAmountWei
       in fsub virtualBase (fdiv invariantK (fadd virtualQuote quoteAmount)))"
    by (simp add: buy_eq [OF reserves_Digits [OF assms]] BONDING_CURVE_K_eq Let_def)
  have amt: "Number_formatUnits (100 * 10 ^ 18) = Fin 100"
    by (simp add: number_eval)
  show nvq: "fadd (Fin 6000) (Number_formatUnits (100 * 10 ^ 18)) = Fin 6100"
    unfolding amt by (simp add: fin_eval number_eval)
  have nvb: "fdiv BONDING_CURVE_K (Fin 6100) = Fin (8853420970056519 / 8388608)"
    unfolding BONDING_CURVE_K_eq by (simp add: fin_eval number_eval)
  have out: "fsub (Fin 1073000191) (Fin (8853420970056519 / 8388608))
      = Fin (147557016167609 / 8388608)"
    by (simp add: fin_eval number_eval)
  show "calculateTokensToReceive (token_raised 0) (100 * 10 ^ 18)
      = Fin (147557016167609 / 8388608)"
    by (simp only: buy_eq [OF reserves_raised_0] nvq nvb out)
qed

text \<open>
  C1, witness: the formula at a market with nothing raised and an amount of 100 USDT.
\<close>

theorem buy_quote_formula_witness:
  "token_totalUsdtRaised (token_raised 0) = Some (Digits 0)
   \<and> calculateTokensToReceive (token_raised 0) (100 * 10 ^ 18) =
      fsub (fdiv (Fin (6000 * 1073000191)) (fadd (Fin 6000) (Number_formatUnits 0)))
        (fdiv (Fin (6000 * 1073000191))
          (fadd (fadd (Fin 6000) (Number_formatUnits 0)) (Number_formatUnits (100 * 10 ^ 18))))"
  using buy_quote_formula [of "token_raised 0" 0 "100 * 10 ^ 18"]
  by (simp add: Let_def)

text \<open>
  C1, counterexample to the figure of the claim: with nothing raised and 100 USDT the
  output is below 17,590,168, more than 187 tokens away from 17,590,355.
\<close>

theorem buy_quote_example_counterexample:
  "calculateTokensToReceive (token_raised 0) (100 * 10 ^ 18) = Fin (147557016167609 / 8388608)
   \<and> (147557016167609 / 8388608 :: rat) < 17590355 - 187"
proof
  have amt: "Number_formatUnits (100 * 10 ^ 18) = Fin 100"
    by (simp add: number_eval)
  have nvq: "fadd (Fin 6000) (Fin 100) = Fin 6100"
    by (simp add: fin_eval number_eval)
  have nvb: "fdiv BONDING_CURVE_K (Fin 6100) = Fin (8853420970056519 / 8388608)"
    unfolding BONDING_CURVE_K_eq by (simp add: fin_eval number_eval)
  have out: "fsub (Fin 1073000191) (Fin (8853420970056519 / 8388608))
      = Fin (147557016167609 / 8388608)"
    by (simp add: fin_eval number_eval)
  show "calculateTokensToReceive (token_raised 0) (100 * 10 ^ 18)
      = Fin (147557016167609 / 8388608)"
    by (simp only: buy_eq [OF reserves_raised_0] amt nvq nvb out)
  show "(147557016167609 / 8388608 :: rat) < 17590355 - 187" by simp
qed

text \<open>
  C2. Selling \<open>tokenAmount\<close> returns
  \<open>virtualQuote - invariantK / (virtualBase + tokenAmount)\<close>, every operation rounded to
  binary64, where \<open>virtualQuote = 6000 + raised\<close> and \<open>virtualBase = invariantK / virtualQuote\<close>.
\<close>

theorem sell_quote_formula:
  assumes "token_totalUsdtRaised token = Some (Digits w)"
  shows "calculateUsdtToReceive token tokenAmount =
      (let invariantK = Fin (6000 * 1073000191);
           virtualQuote = fadd (Fin 6000) (Number_formatUnits w);
           virtualBase = fdiv invariantK virtualQuote
       in fsub virtualQuote (fdiv invariantK (fadd virtualBase tokenAmount)))"
  by (simp add: sell_eq [OF reserves_Digits [OF assms]] BONDING_CURVE_K_eq Let_def)

text \<open>
  C2, witness: the formula at a market with nothing raised and 500,000 tokens.
\<close>

theorem sell_quote_formula_witness:
  "token_totalUsdtRaised (token_raised 0) = Some (Digits 0)
   \<and> calculateUsdtToReceive (token_raised 0) (Fin 500000) =
      fsub (fadd (Fin 6000) (Number_formatUnits 0))
        (fdiv (Fin (6000 * 1073000191))
          (fadd (fdiv (Fin (6000 * 1073000191)) (fadd (Fin 6000) (Number_formatUnits 0)))
            (Fin 500000)))"
  using sell_quote_formula [of "token_raised 0" 0 "Fin 500000"]
  by (simp add: Let_def)




text \<open>
  What the effect does with \<open>+Infinity\<close> does not depend on the market: for every token
  with a non-empty \<^verbatim>\<open>totalUsdtRaised\<close>, selling is quoted from the formula and buying throws.
\<close>

lemma infinite_amount_not_guarded:
  assumes "truthy (token_totalUsdtRaised token)"
  shows "quote_effect (Some PInf) True token = Inr (Some (calculateUsdtToReceive token PInf))"
    and "quote_effect (Some PInf) False token = Inl RangeError"
  using assms by (simp_all add: quote_effect_def fle_def fmul_def signed_inf_def)

text \<open>
  C4, counterexample: with \<open>-6000\<close> USDT raised the virtual quote reserve is 0, the
  virtual base reserve is infinite, and buying with 100 USDT is quoted as \<open>Infinity\<close>.
\<close>

theorem degenerate_state_counterexample:
  "quote_effect (Some (Fin 100)) False (token_raised (- 6000 * 10 ^ 18)) = Inr (Some PInf)"
proof -
  have wei: "BigInt_of_number (Math_floor (fmul (Fin 100) (Fin (10 ^ 18)))) = Inr (10 ^ 20)"
    by (simp add: fin_eval number_eval)
  have raised: "Number_formatUnits (- 6000 * 10 ^ 18) = Fin (- 6000)"
    by (simp add: number_eval)
  have vq: "fadd (Fin 6000) (Fin (- 6000)) = Fin 0"
    by (simp add: fin_eval)
  have vb: "fdiv BONDING_CURVE_K (Fin 0) = PInf"
    by (simp add: BONDING_CURVE_K_eq fdiv_def signed_inf_def)
  have res: "getCurrentVirtualReserves (token_raised (- 6000 * 10 ^ 18)) = (Fin 0, PInf)"
    by (simp only: reserves_Digits [OF token_raised_field] raised vq vb)
  have amt: "Number_formatUnits (10 ^ 20) = Fin 100"
    by (simp add: number_eval)
  have nvq: "fadd (Fin 0) (Fin 100) = Fin 100"
    by (simp add: fin_eval number_eval)
  have nvb: "fdiv BONDING_CURVE_K (Fin 100) = Fin 64380011460"
    unfolding BONDING_CURVE_K_eq by (simp add: fin_eval number_eval)
  have out: "fsub PInf (Fin 64380011460) = PInf"
    by (simp add: fsub_def fadd_def)
  have buy: "calculateTokensToReceive (token_raised (- 6000 * 10 ^ 18)) (10 ^ 20) = PInf"
    by (simp only: buy_eq [OF res] amt nvq nvb out)
  have "quote_effect (Some (Fin 100)) False (token_raised (- 6000 * 10 ^ 18))
      = Inr (Some (calculateTokensToReceive (token_raised (- 6000 * 10 ^ 18)) (10 ^ 20)))"
    by (rule quote_effect_buy [OF _ _ _ wei]) simp_all
  then show ?thesis by (simp only: buy)
qed

text \<open>
  C4, as the code has it. The one degenerate state the code defends against is a
  \<^verbatim>\<open>totalUsdtRaised\<close> that \<^verbatim>\<open>BigInt\<close> cannot read: the reserves are then the initial
  virtual reserves and both quotes are those of a market with nothing raised.
\<close>

theorem unparsable_raised_falls_back:
  assumes "token_totalUsdtRaised token = Some Garbage"
  shows "getCurrentVirtualReserves token = (VIRTUAL_USDT_RESERVE, VIRTUAL_TOKEN_RESERVE)
    \<and> calculateTokensToReceive token usdtAmountWei
        = calculateTokensToReceive (token_raised 0) usdtAmountWei
    \<and> calculateUsdtToReceive token tokenAmount
        = calculateUsdtToReceive (token_raised 0) tokenAmount"
  using reserves_Garbage [OF assms]
  by (simp add: buy_eq [OF reserves_Garbage [OF assms]] buy_eq [OF reserves_raised_0]
      sell_eq [OF reserves_Garbage [OF assms]] sell_eq [OF reserves_raised_0]
      VIRTUAL_USDT_RESERVE_def VIRTUAL_TOKEN_RESERVE_def)

text \<open>
  C4, witness: a token whose \<^verbatim>\<open>totalUsdtRaised\<close> is not a number.
\<close>

theorem unparsable_raised_falls_back_witness:
  "token_totalUsdtRaised
     (Some \<lparr>name = ''T'', symbol = ''T'', image_url = '''', price = None,
            totalUsdtRaised = Some Garbage, userTokenBalance = None\<rparr>) = Some Garbage
   \<and> getCurrentVirtualReserves
     (Some \<lparr>name = ''T'', symbol = ''T'', image_url = '''', price = None,
            totalUsdtRaised = Some Garbage, userTokenBalance = None\<rparr>)
     = (Fin 6000, Fin 1073000191)"
  using unparsable_raised_falls_back
    [of "Some \<lparr>name = ''T'', symbol = ''T'', image_url = '''', price = None,
            totalUsdtRaised = Some Garbage, userTokenBalance = None\<rparr>"]
  by (simp add: token_totalUsdtRaised_def VIRTUAL_USDT_RESERVE_def VIRTUAL_TOKEN_RESERVE_def)

text \<open>
  C5, as the code has it. In a market with positive reserves the sell quote of a
  positive amount is at most \<open>virtualQuote\<close>, and the buy quote of a positive amount lies
  between 0 and \<open>virtualBase\<close>. The bounds are not strict, and rounding can make a sell
  quote negative.
\<close>

theorem quote_bounds:
  assumes "getCurrentVirtualReserves token = (Fin q, Fin b)" "0 < q" "0 < b"
    and "flt (Fin 0) a" "0 < wei"
  shows "fle (calculateUsdtToReceive token a) (Fin q)
    \<and> fle (Fin 0) (calculateTokensToReceive token wei)
    \<and> fle (calculateTokensToReceive token wei) (Fin b)"
proof (intro conjI)
  show "fle (calculateUsdtToReceive token a) (Fin q)"
    by (rule sell_le_quote [OF assms(1)]) (use assms in \<open>simp_all add: pos_nonneg\<close>)
  show "fle (Fin 0) (calculateTokensToReceive token wei)"
    by (rule buy_bounds(1) [OF assms(1)]) (use assms in simp_all)
  show "fle (calculateTokensToReceive token wei) (Fin b)"
    by (rule buy_bounds(2) [OF assms(1)]) (use assms in simp_all)
qed

text \<open>
  C5, witness: a market with nothing raised, selling 1 token and buying with 100 USDT.
\<close>

theorem quote_bounds_witness:
  "getCurrentVirtualReserves (token_raised 0) = (Fin 6000, Fin 1073000191)
   \<and> (0::rat) < 6000 \<and> (0::rat) < 1073000191 \<and> flt (Fin 0) (Fin 1) \<and> (0::int) < 100 * 10 ^ 18
   \<and> fle (calculateUsdtToReceive (token_raised 0) (Fin 1)) (Fin 6000)
   \<and> fle (Fin 0) (calculateTokensToReceive (token_raised 0) (100 * 10 ^ 18))
   \<and> fle (calculateTokensToReceive (token_raised 0) (100 * 10 ^ 18)) (Fin 1073000191)"
  using quote_bounds [OF reserves_raised_0, of "Fin 1" "100 * 10 ^ 18"] reserves_raised_0
  by simp

text \<open>
  C5, counterexample. With 1129 USDT raised the reserves are positive and selling
  \<open>2^-30\<close> tokens is quoted as \<open>-2^-40\<close> USDT: the amount is absorbed by the rounding of
  \<open>virtualBase + tokenAmount\<close>, and \<open>invariantK / virtualBase\<close> rounds to the number after
  7129. With nothing raised, selling \<open>2^87\<close> tokens is quoted as 6000 USDT, which is
  \<open>virtualQuote\<close> itself.
\<close>

theorem quote_bounds_counterexample:
  "getCurrentVirtualReserves (token_raised (1129 * 10 ^ 18))
     = (Fin 7129, Fin (7575518013374213 / 8388608))
   \<and> calculateUsdtToReceive (token_raised (1129 * 10 ^ 18)) (Fin (1 / 2 ^ 30))
     = Fin (- (1 / 2 ^ 40))
   \<and> getCurrentVirtualReserves (token_raised 0) = (Fin 6000, Fin 1073000191)
   \<and> calculateUsdtToReceive (token_raised 0) (Fin (2 ^ 87)) = Fin 6000"
proof (intro conjI)
  have raised: "Number_formatUnits (1129 * 10 ^ 18) = Fin 1129"
    by (simp add: number_eval)
  have vq: "fadd (Fin 6000) (Fin 1129) = Fin 7129"
    by (simp add: fin_eval number_eval)
  have vb: "fdiv BONDING_CURVE_K (Fin 7129) = Fin (7575518013374213 / 8388608)"
    unfolding BONDING_CURVE_K_eq by (simp add: fin_eval number_eval)
  show res: "getCurrentVirtualReserves (token_raised (1129 * 10 ^ 18))
      = (Fin 7129, Fin (7575518013374213 / 8388608))"
    by (simp only: reserves_Digits [OF token_raised_field] raised vq vb)
  have nvb: "fadd (Fin (7575518013374213 / 8388608)) (Fin (1 / 2 ^ 30))
      = Fin (7575518013374213 / 8388608)"
    by (simp add: fin_eval number_eval)
  have nvq: "fdiv BONDING_CURVE_K (Fin (7575518013374213 / 8388608))
      = Fin (7838418394415105 / 1099511627776)"
    unfolding BONDING_CURVE_K_eq by (simp add: fin_eval number_eval)
  have out: "fsub (Fin 7129) (Fin (7838418394415105 / 1099511627776)) = Fin (- (1 / 2 ^ 40))"
    by (simp add: fin_eval number_eval)
  show "calculateUsdtToReceive (token_raised (1129 * 10 ^ 18)) (Fin (1 / 2 ^ 30))
      = Fin (- (1 / 2 ^ 40))"
    by (simp only: sell_eq [OF res] nvb nvq out)
  show "getCurrentVirtualReserves (token_raised 0) = (Fin 6000, Fin 1073000191)"
    by (rule reserves_raised_0)
  have nvb': "fadd (Fin 1073000191) (Fin (2 ^ 87)) = Fin (2 ^ 87)"
    by (simp add: fin_eval number_eval)
  have nvq': "fdiv BONDING_CURVE_K (Fin (2 ^ 87)) = Fin (402375071625 / 2 ^ 83)"
    unfolding BONDING_CURVE_K_eq by (simp add: fin_eval number_eval)
  have out': "fsub (Fin 6000) (Fin (402375071625 / 2 ^ 83)) = Fin 6000"
    by (simp add: fin_eval number_eval)
  show "calculateUsdtToReceive (token_raised 0) (Fin (2 ^ 87)) = Fin 6000"
    by (simp only: sell_eq [OF reserves_raised_0] nvb' nvq' out')
qed

text \<open>
  C6, as the code has it. In a market with positive reserves both quotes are
  non-decreasing in their input amount.
\<close>

theorem quotes_nondecreasing:
  assumes "getCurrentVirtualReserves token = (Fin q, Fin b)" "0 < q" "0 < b"
    and "flt (Fin 0) a" "fle a a'" "0 < w" "w \<le> w'"
  shows "fle (calculateUsdtToReceive token a) (calculateUsdtToReceive token a')
    \<and> fle (calculateTokensToReceive token w) (calculateTokensToReceive token w')"
proof
  show "fle (calculateUsdtToReceive token a) (calculateUsdtToReceive token a')"
    by (rule sell_mono [OF assms(1)]) (use assms in simp_all)
  show "fle (calculateTokensToReceive token w) (calculateTokensToReceive token w')"
    by (rule buy_mono [OF assms(1)]) (use assms in simp_all)
qed

text \<open>
  C6, witness: a market with nothing raised, selling 1 and 2 tokens, buying with 1 and
  100 USDT.
\<close>

theorem quotes_nondecreasing_witness:
  "getCurrentVirtualReserves (token_raised 0) = (Fin 6000, Fin 1073000191)
   \<and> (0::rat) < 6000 \<and> (0::rat) < 1073000191
   \<and> flt (Fin 0) (Fin 1) \<and> fle (Fin 1) (Fin 2) \<and> (0::int) < 10 ^ 18 \<and> (10 ^ 18 :: int) \<le> 10 ^ 20
   \<and> fle (calculateUsdtToReceive (token_raised 0) (Fin 1))
        (calculateUsdtToReceive (token_raised 0) (Fin 2))
   \<and> fle (calculateTokensToReceive (token_raised 0) (10 ^ 18))
        (calculateTokensToReceive (token_raised 0) (10 ^ 20))"
  using quotes_nondecreasing [OF reserves_raised_0, of "Fin 1" "Fin 2" "10 ^ 18" "10 ^ 20"]
    reserves_raised_0
  by simp

text \<open>
  C6, counterexample. With nothing raised, selling \<open>2^-30\<close> and selling \<open>2^-29\<close> tokens are
  both quoted as 0 USDT, and buying with 1 wei and with 2 wei are both quoted as 0 tokens:
  the inputs are absorbed when they are added to the reserve.
\<close>

theorem quotes_strictly_increasing_counterexample:
  "flt (Fin 0) (Fin (1 / 2 ^ 30)) \<and> flt (Fin (1 / 2 ^ 30)) (Fin (1 / 2 ^ 29))
   \<and> calculateUsdtToReceive (token_raised 0) (Fin (1 / 2 ^ 30)) = Fin 0
   \<and> calculateUsdtToReceive (token_raised 0) (Fin (1 / 2 ^ 29)) = Fin 0
   \<and> calculateTokensToReceive (token_raised 0) 1 = Fin 0
   \<and> calculateTokensToReceive (token_raised 0) 2 = Fin 0"
proof (intro conjI)
  show "flt (Fin 0) (Fin (1 / 2 ^ 30))" "flt (Fin (1 / 2 ^ 30)) (Fin (1 / 2 ^ 29))"
    by simp_all
  have nvb1: "fadd (Fin 1073000191) (Fin (1 / 2 ^ 30)) = Fin 1073000191"
    by (simp add: fin_eval number_eval)
  have nvb2: "fadd (Fin 1073000191) (Fin (1 / 2 ^ 29)) = Fin 1073000191"
    by (simp add: fin_eval number_eval)
  have nvq: "fdiv BONDING_CURVE_K (Fin 1073000191) = Fin 6000"
    unfolding BONDING_CURVE_K_eq by (simp add: fin_eval number_eval)
  have out: "fsub (Fin 6000) (Fin 6000) = Fin 0"
    by (simp add: fin_eval)
  show "calculateUsdtToReceive (token_raised 0) (Fin (1 / 2 ^ 30)) = Fin 0"
    by (simp only: sell_eq [OF reserves_raised_0] nvb1 nvq out)
  show "calculateUsdtToReceive (token_raised 0) (Fin (1 / 2 ^ 29)) = Fin 0"
    by (simp only: sell_eq [OF reserves_raised_0] nvb2 nvq out)
  have nvq1: "fadd (Fin 6000) (Number_formatUnits 1) = Fin 6000"
    by (simp add: fin_eval number_eval)
  have nvq2: "fadd (Fin 6000) (Number_formatUnits 2) = Fin 6000"
    by (simp add: fin_eval number_eval)
  have out': "fsub (Fin 1073000191) (Fin 1073000191) = Fin 0"
    by (simp add: fin_eval)
  show "calculateTokensToReceive (token_raised 0) 1 = Fin 0"
    by (simp only: buy_eq [OF reserves_raised_0] nvq1 fallback_reserves out')
  show "calculateTokensToReceive (token_raised 0) 2 = Fin 0"
    by (simp only: buy_eq [OF reserves_raised_0] nvq2 fallback_reserves out')
qed

lemma virtual_quote_ge:
  assumes "0 \<le> w"
  shows "fle (Fin 6000) (fadd (Fin 6000) (Number_formatUnits w))"
    and "nonneg_num (fadd (Fin 6000) (Number_formatUnits w))"
    and "fadd (Fin 6000) (Number_formatUnits w) \<noteq> Fin 0"
proof -
  show 1: "fle (Fin 6000) (fadd (Fin 6000) (Number_formatUnits w))"
    by (rule fadd_increases [OF is_double_6000 nonneg_Number_formatUnits [OF assms]])
  show "nonneg_num (fadd (Fin 6000) (Number_formatUnits w))"
    by (rule fadd_nonneg [OF _ nonneg_Number_formatUnits [OF assms]]) simp
  show "fadd (Fin 6000) (Number_formatUnits w) \<noteq> Fin 0"
    using 1 by auto
qed

lemma virtual_base_finite:
  assumes "0 \<le> w"
  shows "is_finite (fdiv BONDING_CURVE_K (fadd (Fin 6000) (Number_formatUnits w)))"
    and "nonneg_num (fdiv BONDING_CURVE_K (fadd (Fin 6000) (Number_formatUnits w)))"
proof -
  define vq where "vq = fadd (Fin 6000) (Number_formatUnits w)"
  have "fle (fdiv BONDING_CURVE_K vq) (fdiv BONDING_CURVE_K (Fin 6000))"
    unfolding vq_def
    by (rule fdiv_K_antimono [OF _ virtual_quote_ge(2,1) [OF assms]]) simp
  then have le: "fle (fdiv BONDING_CURVE_K vq) (Fin 1073000191)"
    by (simp only: fallback_reserves)
  show nn: "nonneg_num (fdiv BONDING_CURVE_K (fadd (Fin 6000) (Number_formatUnits w)))"
    by (rule fdiv_K_nonneg [OF virtual_quote_ge(2) [OF assms]])
  show "is_finite (fdiv BONDING_CURVE_K (fadd (Fin 6000) (Number_formatUnits w)))"
    using le nn unfolding vq_def
    by (cases "fdiv BONDING_CURVE_K (fadd (Fin 6000) (Number_formatUnits w))") simp_all
qed

text \<open>
  C9, as the code has it. The spot price is non-decreasing in the amount raised, for
  non-negative amounts.
\<close>

theorem spot_price_nondecreasing:
  assumes "token_totalUsdtRaised token1 = Some (Digits w1)"
    and "token_totalUsdtRaised token2 = Some (Digits w2)"
    and "0 \<le> w1" "w1 \<le> w2"
  shows "fle (getCurrentPriceNatural token1) (getCurrentPriceNatural token2)"
proof -
  define vq1 where "vq1 = fadd (Fin 6000) (Number_formatUnits w1)"
  define vq2 where "vq2 = fadd (Fin 6000) (Number_formatUnits w2)"
  have w2: "0 \<le> w2" using assms by simp
  have p1: "getCurrentPriceNatural token1 = fdiv vq1 (fdiv BONDING_CURVE_K vq1)"
    by (simp add: getCurrentPriceNatural_def reserves_Digits [OF assms(1)] vq1_def)
  have p2: "getCurrentPriceNatural token2 = fdiv vq2 (fdiv BONDING_CURVE_K vq2)"
    by (simp add: getCurrentPriceNatural_def reserves_Digits [OF assms(2)] vq2_def)
  have le: "fle vq1 vq2"
    unfolding vq1_def vq2_def by (rule fadd_mono) (rule Number_formatUnits_mono [OF assms(4)])
  have n1: "nonneg_num vq1" "vq1 \<noteq> Fin 0" and n2: "nonneg_num vq2"
    unfolding vq1_def vq2_def
    using virtual_quote_ge [OF assms(3)] virtual_quote_ge [OF w2] by simp_all
  have le2: "fle (fdiv BONDING_CURVE_K vq2) (fdiv BONDING_CURVE_K vq1)"
    using n1(1) n2 le by (rule fdiv_K_antimono)
  have fin1: "is_finite (fdiv BONDING_CURVE_K vq1)"
    unfolding vq1_def by (rule virtual_base_finite [OF assms(3)])
  have nn2: "nonneg_num (fdiv BONDING_CURVE_K vq2)"
    using n2 by (rule fdiv_K_nonneg)
  have "fle (fdiv vq1 (fdiv BONDING_CURVE_K vq1)) (fdiv vq2 (fdiv BONDING_CURVE_K vq2))"
    by (rule fdiv_mono2 [OF n1(1) n1(2) le fin1 nn2 le2])
  then show ?thesis by (simp only: p1 p2)
qed

text \<open>
  C9, witness: nothing raised and 1000 USDT raised.
\<close>

theorem spot_price_nondecreasing_witness:
  "token_totalUsdtRaised (token_raised 0) = Some (Digits 0)
   \<and> token_totalUsdtRaised (token_raised (1000 * 10 ^ 18)) = Some (Digits (1000 * 10 ^ 18))
   \<and> (0::int) \<le> 0 \<and> (0::int) \<le> 1000 * 10 ^ 18
   \<and> fle (getCurrentPriceNatural (token_raised 0))
        (getCurrentPriceNatural (token_raised (1000 * 10 ^ 18)))"
  using spot_price_nondecreasing [of "token_raised 0" 0 "token_raised (1000 * 10 ^ 18)" "1000 * 10 ^ 18"]
  by simp

text \<open>
  C9, counterexample. With 0 wei and with 1 wei raised the spot price is the same number,
  \<open>103150461081565 / 2^64\<close>: \<open>6000 + 10^-18\<close> rounds to 6000.
\<close>

theorem spot_price_strictly_increasing_counterexample:
  "(0::int) < 1
   \<and> getCurrentPriceNatural (token_raised 0) = Fin (103150461081565 / 2 ^ 64)
   \<and> getCurrentPriceNatural (token_raised 1) = Fin (103150461081565 / 2 ^ 64)"
proof (intro conjI)
  show "(0::int) < 1" by simp
  have p: "fdiv (Fin 6000) (Fin 1073000191) = Fin (103150461081565 / 2 ^ 64)"
    by (simp add: fin_eval number_eval)
  show "getCurrentPriceNatural (token_raised 0) = Fin (103150461081565 / 2 ^ 64)"
    by (simp add: getCurrentPriceNatural_def reserves_raised_0 p)
  have vq: "fadd (Fin 6000) (Number_formatUnits 1) = Fin 6000"
    by (simp add: fin_eval number_eval)
  have "getCurrentVirtualReserves (token_raised 1) = (Fin 6000, Fin 1073000191)"
    by (simp only: reserves_Digits [OF token_raised_field] vq fallback_reserves)
  then show "getCurrentPriceNatural (token_raised 1) = Fin (103150461081565 / 2 ^ 64)"
    by (simp add: getCurrentPriceNatural_def p)
qed

subsection \<open>The invariant\<close>

lemma to_number_Fin_eq:
  assumes "to_number x = Fin d"
  shows "d = round_rat x" and "\<bar>d\<bar> < pow2 1024"
  using assms by (auto simp: to_number_def Let_def abs_less_iff not_le split: if_splits)

lemma is_double_fadd_any [simp]: "is_double (fadd a b)"
  by (cases a; cases b) (simp_all add: fadd_def signed_zero_def)

lemma is_double_fdiv_any [simp]: "is_double (fdiv a b)"
  by (cases a; cases b) (simp_all add: fdiv_def signed_zero_def signed_inf_def)

lemma invariant_error:
  assumes "0 < c" "is_double (Fin c)" "fdiv BONDING_CURVE_K (Fin c) = Fin d"
  shows "\<bar>c * d - 6438001146000\<bar> \<le> 6438001146000 * pow2 (- 53)"
proof -
  define k :: rat where "k = 6438001146000"
  have k: "0 < k" "pow2 2 \<le> k" by (simp_all add: k_def pow2_numeral)
  have "fdiv (Fin k) (Fin c) = to_number (k / c)" using assms(1) k(1) by (rule fdiv_Fin [rotated])
  then have d: "d = round_rat (k / c)"
    using assms(3) to_number_Fin_eq(1) [of "k / c" d] by (simp add: BONDING_CURVE_K_eq k_def)
  have c: "c < pow2 1024" using assms(1,2) by simp
  have "pow2 (- 1022) = pow2 2 / pow2 1024" using pow2_diff [of 2 1024] by simp
  also have "\<dots> \<le> k / pow2 1024" using k(2) by (simp add: divide_right_mono)
  also have "\<dots> \<le> k / c" using c assms(1) k(1) by (simp add: frac_le)
  finally have "\<bar>round_rat (k / c) - k / c\<bar> \<le> k / c * pow2 (- 53)"
    by (rule round_rat_error)
  then have "\<bar>d - k / c\<bar> \<le> k / c * pow2 (- 53)" by (simp only: d)
  then have "\<bar>d - k / c\<bar> * c \<le> k / c * pow2 (- 53) * c"
    by (rule mult_right_mono) (use assms(1) in simp)
  moreover have "\<bar>d - k / c\<bar> * c = \<bar>c * d - k\<bar>"
  proof -
    have "\<bar>d - k / c\<bar> * c = \<bar>(d - k / c) * c\<bar>" using assms(1) by (simp add: abs_mult)
    also have "(d - k / c) * c = c * d - k" using assms(1) by (simp add: field_simps)
    finally show ?thesis .
  qed
  moreover have "k / c * pow2 (- 53) * c = k * pow2 (- 53)" using assms(1) by simp
  ultimately show ?thesis by (simp add: k_def)
qed

lemma pow2_53_small: "6438001146000 * pow2 (- 53) \<le> (6438001146000 / 10 ^ 9 :: rat)"
  by (simp add: pow2_neg_numeral)

lemma to_number_overflow:
  assumes "pow2 1024 \<le> x"
  shows "to_number x = PInf"
proof -
  have x: "0 < x" using assms pow2_pos [of 1024] by linarith
  have "(1024::int) \<le> ilog2 x" using assms by (rule ilog2_ge)
  then have "pow2 1024 \<le> pow2 (ilog2 x)" by (rule pow2_mono)
  also have "\<dots> \<le> round_rat x" by (rule round_rat_lower [OF x]) (use \<open>1024 \<le> ilog2 x\<close> in simp)
  finally show ?thesis by (simp add: to_number_def)
qed

text \<open>
  C8, as the code has it. Whenever the reserves are finite numbers, the exact product
  \<open>virtualQuote * virtualBase\<close> differs from \<open>invariantK\<close> by at most \<open>invariantK / 10^9\<close>
  (in fact by at most \<open>invariantK * 2^-53\<close>), and so does the product of the reserves after
  the hypothetical trade of either quote function.
\<close>

theorem invariant_preserved:
  assumes "getCurrentVirtualReserves token = (Fin q, Fin b)" "0 < q"
  shows "\<bar>q * b - 6000 * 1073000191\<bar> \<le> 6000 * 1073000191 / 10 ^ 9
    \<and> (newReserves_buy token wei = (Fin q', Fin b') \<longrightarrow> 0 < q'
        \<longrightarrow> \<bar>q' * b' - 6000 * 1073000191\<bar> \<le> 6000 * 1073000191 / 10 ^ 9)
    \<and> (newReserves_sell token a = (Fin q'', Fin b'') \<longrightarrow> 0 < b''
        \<longrightarrow> \<bar>q'' * b'' - 6000 * 1073000191\<bar> \<le> 6000 * 1073000191 / 10 ^ 9)"
proof (intro conjI impI)
  have "\<bar>q * b - 6438001146000\<bar> \<le> 6438001146000 * pow2 (- 53)"
    using assms(2) reserves_is_double(1) [OF assms(1)] reserves_snd [OF assms(1), symmetric]
    by (rule invariant_error)
  then show "\<bar>q * b - 6000 * 1073000191\<bar> \<le> 6000 * 1073000191 / 10 ^ 9"
    using pow2_53_small by simp
next
  assume n: "newReserves_buy token wei = (Fin q', Fin b')" and q': "0 < q'"
  have 1: "fadd (Fin q) (Number_formatUnits wei) = Fin q'"
    and 2: "fdiv BONDING_CURVE_K (Fin q') = Fin b'"
    using n by (auto simp: newReserves_buy_def assms(1) Let_def)
  have "is_double (Fin q')" using is_double_fadd_any [of "Fin q" "Number_formatUnits wei"]
    by (simp only: 1)
  with q' have "\<bar>q' * b' - 6438001146000\<bar> \<le> 6438001146000 * pow2 (- 53)"
    using 2 by (rule invariant_error)
  then show "\<bar>q' * b' - 6000 * 1073000191\<bar> \<le> 6000 * 1073000191 / 10 ^ 9"
    using pow2_53_small by simp
next
  assume n: "newReserves_sell token a = (Fin q'', Fin b'')" and b'': "0 < b''"
  have 1: "fadd (Fin b) a = Fin b''"
    and 2: "fdiv BONDING_CURVE_K (Fin b'') = Fin q''"
    using n by (auto simp: newReserves_sell_def assms(1) Let_def)
  have "is_double (Fin b'')" using is_double_fadd_any [of "Fin b" a]
    by (simp only: 1)
  with b'' have "\<bar>b'' * q'' - 6438001146000\<bar> \<le> 6438001146000 * pow2 (- 53)"
    using 2 by (rule invariant_error)
  then show "\<bar>q'' * b'' - 6000 * 1073000191\<bar> \<le> 6000 * 1073000191 / 10 ^ 9"
    using pow2_53_small by (simp add: mult.commute)
qed

text \<open>
  C8, counterexample. A raised amount of \<open>2^1024\<close> USDT is not negative, but it overflows
  to \<open>Infinity\<close>: the reserves are \<open>(Infinity, 0)\<close>, and their product is NaN.
\<close>

theorem invariant_preserved_counterexample:
  "(0::int) \<le> 2 ^ 1024 * 10 ^ 18
   \<and> getCurrentVirtualReserves (token_raised (2 ^ 1024 * 10 ^ 18)) = (PInf, Fin 0)
   \<and> fmul PInf (Fin 0) = NaN"
proof (intro conjI)
  show "(0::int) \<le> 2 ^ 1024 * 10 ^ 18" by simp
  have "Number_formatUnits (2 ^ 1024 * 10 ^ 18) = to_number (pow2 1024)"
    by (simp add: Number_formatUnits_def pow2_numeral)
  also have "\<dots> = PInf" by (rule to_number_overflow) simp
  finally have raised: "Number_formatUnits (2 ^ 1024 * 10 ^ 18) = PInf" .
  have vq: "fadd (Fin 6000) PInf = PInf" by (simp add: fadd_def)
  have vb: "fdiv BONDING_CURVE_K PInf = Fin 0"
    by (simp add: BONDING_CURVE_K_eq fdiv_def signed_zero_def)
  show "getCurrentVirtualReserves (token_raised (2 ^ 1024 * 10 ^ 18)) = (PInf, Fin 0)"
    by (simp only: reserves_Digits [OF token_raised_field] raised vq vb)
  show "fmul PInf (Fin 0) = NaN" by (simp add: fmul_def)
qed

text \<open>
  C8, witness: a market with nothing raised, buying with 100 USDT and selling 1 token.
\<close>

theorem invariant_preserved_witness:
  "getCurrentVirtualReserves (token_raised 0) = (Fin 6000, Fin 1073000191) \<and> (0::rat) < 6000
   \<and> newReserves_buy (token_raised 0) (100 * 10 ^ 18)
       = (Fin 6100, Fin (8853420970056519 / 8388608)) \<and> (0::rat) < 6100
   \<and> newReserves_sell (token_raised 0) (Fin 1)
       = (Fin (6597069760507753 / 1099511627776), Fin 1073000192) \<and> (0::rat) < 1073000192
   \<and> \<bar>6000 * 1073000191 - 6000 * 1073000191 :: rat\<bar> \<le> 6000 * 1073000191 / 10 ^ 9
   \<and> \<bar>6100 * (8853420970056519 / 8388608) - 6000 * 1073000191 :: rat\<bar>
       \<le> 6000 * 1073000191 / 10 ^ 9
   \<and> \<bar>6597069760507753 / 1099511627776 * 1073000192 - 6000 * 1073000191 :: rat\<bar>
       \<le> 6000 * 1073000191 / 10 ^ 9"
proof -
  have amt: "Number_formatUnits (100 * 10 ^ 18) = Fin 100"
    by (simp add: number_eval)
  have nvq: "fadd (Fin 6000) (Fin 100) = Fin 6100"
    by (simp add: fin_eval number_eval)
  have nvb: "fdiv BONDING_CURVE_K (Fin 6100) = Fin (8853420970056519 / 8388608)"
    unfolding BONDING_CURVE_K_eq by (simp add: fin_eval number_eval)
  have buy: "newReserves_buy (token_raised 0) (100 * 10 ^ 18)
      = (Fin 6100, Fin (8853420970056519 / 8388608))"
    unfolding newReserves_buy_def reserves_raised_0 Let_def prod.case
    by (simp only: amt nvq nvb)
  have nvb': "fadd (Fin 1073000191) (Fin 1) = Fin 1073000192"
    by (simp add: fin_eval number_eval)
  have nvq': "fdiv BONDING_CURVE_K (Fin 1073000192) = Fin (6597069760507753 / 1099511627776)"
    unfolding BONDING_CURVE_K_eq by (simp add: fin_eval number_eval)
  have sell: "newReserves_sell (token_raised 0) (Fin 1)
      = (Fin (6597069760507753 / 1099511627776), Fin 1073000192)"
    unfolding newReserves_sell_def reserves_raised_0 Let_def prod.case
    by (simp only: nvb' nvq')
  show ?thesis
    using invariant_preserved [OF reserves_raised_0, of "100 * 10 ^ 18" 6100
        "8853420970056519 / 8388608" "Fin 1" "6597069760507753 / 1099511627776" 1073000192]
      reserves_raised_0 buy sell
    by simp
qed

subsection \<open>Amounts below one wei\<close>







subsection \<open>Relative error of one rounding\<close>

lemma round_rat_le_rel:
  assumes "pow2 (- 1022) \<le> y"
  shows "round_rat y \<le> y * (1 + pow2 (- 53))"
  using round_rat_error [OF assms] by (simp add: abs_le_iff algebra_simps)

lemma round_rat_ge_rel:
  assumes "pow2 (- 1022) \<le> y"
  shows "y * (1 - pow2 (- 53)) \<le> round_rat y"
  using round_rat_error [OF assms] by (simp add: abs_le_iff algebra_simps)

lemma round_rat_le_double:
  assumes "0 \<le> y"
  shows "round_rat y \<le> max (2 * y) (pow2 (- 1021))"
proof (cases "pow2 (- 1022) \<le> y")
  case True
  have "y * (1 + pow2 (- 53)) \<le> y * 2"
    by (rule mult_left_mono) (use assms in \<open>simp_all add: pow2_neg_numeral\<close>)
  then show ?thesis using round_rat_le_rel [OF True] by simp
next
  case False
  then have "round_rat y \<le> round_rat (pow2 (- 1022))" by (intro round_rat_mono) simp
  also have "\<dots> \<le> pow2 (- 1022) * (1 + pow2 (- 53))" by (rule round_rat_le_rel) simp
  also have "\<dots> \<le> pow2 (- 1022) * 2"
    by (rule mult_left_mono) (simp_all add: pow2_neg_numeral)
  also have "\<dots> = pow2 (- 1021)" using pow2_Suc [of "- 1022"] by simp
  finally show ?thesis by simp
qed

lemma to_number_finite:
  assumes "0 \<le> y" "y \<le> pow2 1000"
  shows "to_number y = Fin (round_rat y)"
proof -
  have "round_rat y \<le> max (2 * y) (pow2 (- 1021))" using assms(1) by (rule round_rat_le_double)
  also have "\<dots> \<le> pow2 1001"
    using assms(2) pow2_Suc [of 1000] pow2_mono [of "- 1021" 1001] by simp
  also have "\<dots> < pow2 1024" by (rule pow2_strict_mono) simp
  finally have "round_rat y < pow2 1024" .
  moreover have "0 \<le> round_rat y" using assms(1) by (rule round_rat_nonneg)
  moreover have "0 < pow2 1024" by simp
  ultimately show ?thesis using assms(1) by (auto simp: to_number_def Let_def)
qed

lemma to_number_le:
  assumes "round_rat y \<le> c" "c < pow2 1024"
  shows "fle (to_number y) (Fin c)"
  using assms by (auto simp: to_number_def Let_def fle_def)

lemma tiny_le: "pow2 (- 1021) \<le> (1 / 2 ^ 200 :: rat)"
  using pow2_mono [of "- 1021" "- 200"] by (simp add: pow2_neg_numeral)

lemma tiny_le': "pow2 (- 1022) \<le> (1 / 2 ^ 200 :: rat)"
  using pow2_mono [of "- 1022" "- 200"] by (simp add: pow2_neg_numeral)

lemma huge_ge: "(2 ^ 200 :: rat) \<le> pow2 1000"
proof -
  have "pow2 200 \<le> pow2 1000" by (rule pow2_mono) simp
  then show ?thesis by (simp add: pow2_numeral)
qed

subsection \<open>The error analysis of a round trip, over the rationals\<close>

text \<open>
  In these lemmas \<open>u\<close> is the unit roundoff, \<open>\<beta> = invariantK / q\<close> the exact virtual base
  reserve, and \<open>q * a / (\<beta> + a)\<close> the exact sell quote of \<open>a\<close> tokens.
\<close>

lemma sell_quote_error:
  fixes q \<beta> a u b s n :: rat
  assumes "0 < q" "0 < \<beta>" "0 < a" "0 \<le> u" "u \<le> 1 / 4"
    and b: "b \<le> \<beta> * (1 + u)"
    and s: "0 < s" "s \<le> (b + a) * (1 + u)"
    and n: "q * \<beta> / s * (1 - u) \<le> n"
  shows "q - n \<le> q * a / (\<beta> + a) + 3 * u * q"
proof -
  define w where "w = (1 + u) * (1 + u)"
  define \<rho> where "\<rho> = (1 - u) / w"
  define \<kappa> where "\<kappa> = q * \<beta> / (\<beta> + a)"
  have w: "0 < w" unfolding w_def using assms by (intro mult_pos_pos) simp_all
  have c: "0 < \<beta> + a" using assms by simp
  have "b + a \<le> (\<beta> + a) * (1 + u)"
  proof -
    have "a \<le> a * (1 + u)" using assms by (simp add: algebra_simps)
    with b show ?thesis by (simp add: algebra_simps)
  qed
  then have "(b + a) * (1 + u) \<le> (\<beta> + a) * (1 + u) * (1 + u)"
    by (rule mult_right_mono) (use assms in simp)
  with s(2) have sy: "s \<le> (\<beta> + a) * w" by (simp add: w_def mult.assoc)
  have "q * \<beta> / ((\<beta> + a) * w) \<le> q * \<beta> / s"
    by (rule divide_left_mono [OF sy]) (use assms s w c in simp_all)
  then have "q * \<beta> / ((\<beta> + a) * w) * (1 - u) \<le> q * \<beta> / s * (1 - u)"
    by (rule mult_right_mono) (use assms in simp)
  moreover have "q * \<beta> / ((\<beta> + a) * w) * (1 - u) = \<kappa> * \<rho>"
    by (simp add: \<kappa>_def \<rho>_def)
  ultimately have n': "\<kappa> * \<rho> \<le> n" using n by simp
  have \<kappa>: "0 \<le> \<kappa>" "\<kappa> \<le> q"
  proof -
    show "0 \<le> \<kappa>" unfolding \<kappa>_def using assms by simp
    have "q * \<beta> \<le> q * (\<beta> + a)" using assms by simp
    then show "\<kappa> \<le> q" unfolding \<kappa>_def using c by (simp add: pos_divide_le_eq)
  qed
  have \<rho>: "1 - \<rho> \<le> 3 * u" "0 \<le> 1 - \<rho>"
  proof -
    have "(1 - u) - (1 - 3 * u) * w = 5 * (u * u) + 3 * (u * u * u)"
      by (simp add: w_def algebra_simps)
    moreover have "0 \<le> 5 * (u * u) + 3 * (u * u * u)"
      using assms by (intro add_nonneg_nonneg mult_nonneg_nonneg) simp_all
    ultimately have "(1 - 3 * u) * w \<le> 1 - u" by linarith
    then have "1 - 3 * u \<le> \<rho>" unfolding \<rho>_def using w by (simp add: pos_le_divide_eq)
    then show "1 - \<rho> \<le> 3 * u" by simp
    have "w - (1 - u) = 3 * u + u * u" by (simp add: w_def algebra_simps)
    moreover have "0 \<le> 3 * u + u * u" using assms by simp
    ultimately have "1 - u \<le> 1 * w" by linarith
    then have "\<rho> \<le> 1" unfolding \<rho>_def using w by (simp only: pos_divide_le_eq)
    then show "0 \<le> 1 - \<rho>" by simp
  qed
  have id: "q * a / (\<beta> + a) = q - \<kappa>"
    unfolding \<kappa>_def using c by (simp add: field_simps)
  have "\<kappa> * (1 - \<rho>) \<le> q * (3 * u)"
    by (rule mult_mono) (use \<kappa> \<rho> assms in simp_all)
  then have "q - \<kappa> * \<rho> \<le> (q - \<kappa>) + 3 * u * q" by (simp add: algebra_simps)
  with n' show ?thesis unfolding id by simp
qed

lemma cube_bound:
  fixes u :: rat
  assumes "0 \<le> u" "u \<le> 1 / 4"
  shows "(1 + u) * ((1 + u) * (1 + u)) \<le> 1 + 4 * u"
proof -
  have "u * u \<le> 1 / 4 * u" by (rule mult_right_mono) (use assms in simp_all)
  moreover have "u * u * u \<le> 1 / 4 * u"
  proof -
    have "u * u \<le> 1 / 4 * (1 / 4)" by (rule mult_mono) (use assms in simp_all)
    then have "u * u * u \<le> 1 / 4 * (1 / 4) * u" by (rule mult_right_mono) (use assms in simp)
    also have "\<dots> \<le> 1 / 4 * u" using assms by simp
    finally show ?thesis .
  qed
  moreover have "(1 + u) * ((1 + u) * (1 + u)) = 1 + 3 * u + 3 * (u * u) + u * u * u"
    by (simp add: algebra_simps)
  ultimately show ?thesis by simp
qed

lemma buy_amount_error:
  fixes q d u qo amt :: rat
  assumes "0 \<le> u" "u \<le> 1 / 4" "0 \<le> d" "d \<le> q"
    and "qo \<le> d * (1 + u)" "amt \<le> qo * ((1 + u) * (1 + u))"
  shows "amt \<le> d + 4 * u * q"
proof -
  have "qo * ((1 + u) * (1 + u)) \<le> d * (1 + u) * ((1 + u) * (1 + u))"
    by (rule mult_right_mono [OF assms(5)]) (use assms in simp)
  also have "\<dots> = d * ((1 + u) * ((1 + u) * (1 + u)))" by (simp add: mult.assoc)
  also have "\<dots> \<le> d * (1 + 4 * u)"
    by (rule mult_left_mono [OF cube_bound]) (use assms in simp_all)
  also have "\<dots> = d + 4 * u * d" by (simp add: algebra_simps)
  also have "\<dots> \<le> d + 4 * u * q"
    using mult_left_mono [OF assms(4), of "4 * u"] assms by simp
  finally show ?thesis using assms(6) by simp
qed

lemma new_base_error:
  fixes q \<beta> u amt M s2 nb :: rat
  assumes "0 < q" "0 < \<beta>" "0 \<le> u" "u \<le> 1 / 4" "0 \<le> amt" "amt \<le> M"
    and s2: "0 < s2" "s2 \<le> (q + amt) * (1 + u)"
    and nb: "q * \<beta> / s2 * (1 - u) \<le> nb"
  shows "q * \<beta> / (q + M) * (1 - 2 * u) \<le> nb"
proof -
  define \<kappa> where "\<kappa> = q * \<beta> / (q + M)"
  have qM: "0 < q + M" using assms by simp
  have u1: "0 < 1 + u" using assms by simp
  have \<kappa>: "0 \<le> \<kappa>" unfolding \<kappa>_def using assms qM by simp
  have "(q + amt) * (1 + u) \<le> (q + M) * (1 + u)"
    by (rule mult_right_mono) (use assms in simp_all)
  with s2(2) have le: "s2 \<le> (q + M) * (1 + u)" by simp
  have "q * \<beta> / ((q + M) * (1 + u)) \<le> q * \<beta> / s2"
    by (rule divide_left_mono [OF le]) (use assms qM in simp_all)
  then have "q * \<beta> / ((q + M) * (1 + u)) * (1 - u) \<le> q * \<beta> / s2 * (1 - u)"
    by (rule mult_right_mono) (use assms in simp)
  moreover have "q * \<beta> / ((q + M) * (1 + u)) * (1 - u) = \<kappa> * ((1 - u) / (1 + u))"
    by (simp add: \<kappa>_def)
  ultimately have 1: "\<kappa> * ((1 - u) / (1 + u)) \<le> nb" using nb by simp
  have "(1 - u) - (1 - 2 * u) * (1 + u) = 2 * (u * u)" by (simp add: algebra_simps)
  moreover have "0 \<le> 2 * (u * u)" using assms by simp
  ultimately have "(1 - 2 * u) * (1 + u) \<le> 1 - u" by linarith
  then have "1 - 2 * u \<le> (1 - u) / (1 + u)" using u1 by (simp add: pos_le_divide_eq)
  then have "\<kappa> * (1 - 2 * u) \<le> \<kappa> * ((1 - u) / (1 + u))"
    by (rule mult_left_mono) (rule \<kappa>)
  with 1 show ?thesis unfolding \<kappa>_def by simp
qed

lemma buy_back_exact:
  fixes q \<beta> a u :: rat
  assumes "0 < q" "0 < \<beta>" "0 < a" "0 \<le> u"
    and M_def: "M = q * a / (\<beta> + a) + 7 * u * q"
  shows "\<beta> * M / (q + M) \<le> a + 7 * u * \<beta>"
proof -
  define Q where "Q = q * a / (\<beta> + a)"
  have Q: "0 \<le> Q" unfolding Q_def using assms(1-4) by simp
  have M: "M = Q + 7 * u * q" by (simp add: M_def Q_def)
  have M0: "0 \<le> M" unfolding M using Q assms(1-4) by simp
  have qM: "0 < q + M" using M0 assms(1) by simp
  have "Q * (\<beta> - a) \<le> q * a"
  proof -
    have "Q * (\<beta> - a) = q * a * ((\<beta> - a) / (\<beta> + a))" by (simp add: Q_def)
    also have "\<dots> \<le> q * a * 1"
      by (rule mult_left_mono) (use assms(1-4) in \<open>simp_all add: field_simps\<close>)
    finally show ?thesis by simp
  qed
  moreover have "(a + 7 * u * \<beta>) * (q + M) - \<beta> * M
      = (q * a - Q * (\<beta> - a)) + 7 * u * q * a + 7 * u * \<beta> * Q + 49 * (u * u) * \<beta> * q"
    unfolding M by (simp add: algebra_simps)
  moreover have "0 \<le> 7 * u * q * a + 7 * u * \<beta> * Q + 49 * (u * u) * \<beta> * q"
    using assms(1-4) Q by (intro add_nonneg_nonneg mult_nonneg_nonneg) simp_all
  ultimately have "\<beta> * M \<le> (a + 7 * u * \<beta>) * (q + M)" by linarith
  then show ?thesis using qM by (simp add: pos_divide_le_eq)
qed

lemma buy_back_error:
  fixes q \<beta> a u b nb :: rat
  assumes "0 < q" "0 < \<beta>" "0 < a" "0 \<le> u" "u \<le> 1 / 4"
    and M_def: "M = q * a / (\<beta> + a) + 7 * u * q"
    and b: "b \<le> \<beta> * (1 + u)"
    and nb: "q * \<beta> / (q + M) * (1 - 2 * u) \<le> nb" "0 \<le> nb"
  shows "(b - nb) * (1 + u) \<le> a + 12 * u * \<beta>"
proof -
  have M0: "0 \<le> M" unfolding M_def using assms(1-4) by simp
  have qM: "0 < q + M" using M0 assms(1) by simp
  have frac: "q * \<beta> / (q + M) \<le> \<beta>"
  proof -
    have "q * \<beta> \<le> \<beta> * (q + M)" using M0 assms(1,2) by (simp add: algebra_simps)
    then show ?thesis using qM by (simp add: pos_divide_le_eq)
  qed
  define \<kappa> where "\<kappa> = q * \<beta> / (q + M)"
  have id: "\<beta> - \<kappa> = \<beta> * M / (q + M)"
    unfolding \<kappa>_def using qM by (simp add: field_simps)
  have frac': "\<kappa> \<le> \<beta>" using frac by (simp only: \<kappa>_def)
  have A: "b - nb \<le> \<beta> * (1 + u) - \<kappa> * (1 - 2 * u)"
    using b nb(1) by (simp add: \<kappa>_def)
  have B: "\<beta> * (1 + u) - \<kappa> * (1 - 2 * u) = (\<beta> - \<kappa>) + u * \<beta> + 2 * (u * \<kappa>)"
    by (simp add: algebra_simps)
  have C: "u * \<kappa> \<le> u * \<beta>" by (rule mult_left_mono [OF frac' assms(4)])
  have D: "\<beta> - \<kappa> \<le> a + 7 * (u * \<beta>)"
    using buy_back_exact [OF assms(1-4) M_def] by (simp add: id mult.assoc)
  have 1: "b - nb \<le> a + 10 * (u * \<beta>)" using A B C D by linarith
  have "u * b \<le> u * (\<beta> * (1 + u))" by (rule mult_left_mono [OF b]) fact
  also have "\<dots> \<le> u * (\<beta> * 2)"
    by (intro mult_left_mono) (use assms(1-5) in simp_all)
  finally have 2: "u * b \<le> 2 * (u * \<beta>)" by simp
  have 3: "u * (b - nb) \<le> u * b" using nb(2) assms(4) by (simp add: mult_left_mono)
  have 4: "(b - nb) * (1 + u) = (b - nb) + u * (b - nb)" by (simp add: algebra_simps)
  have "(b - nb) * (1 + u) \<le> a + 12 * (u * \<beta>)" using 1 2 3 4 by linarith
  then show ?thesis by (simp add: mult.assoc)
qed

subsection \<open>A round trip through the two quotes\<close>

lemma quote_effect_sell_inv:
  assumes "quote_effect (Some v) True token = Inr (Some x)"
  shows "x = calculateUsdtToReceive token v"
  using assms by (auto simp: quote_effect_def split: if_splits)

lemma quote_effect_buy_inv:
  assumes "quote_effect (Some v) False token = Inr (Some x)"
  obtains wei where "\<not> isNaN v" "\<not> fle v (Fin 0)"
    "BigInt_of_number (Math_floor (fmul v (Fin (10 ^ 18)))) = Inr wei"
    "x = calculateTokensToReceive token wei"
  using assms by (auto simp: quote_effect_def split: if_splits sum.splits)

lemma u_bounds: "(0::rat) \<le> pow2 (- 53)" "pow2 (- 53) \<le> (1 / 4 :: rat)"
  by (simp_all add: pow2_neg_numeral)

lemma reserve_base_eq:
  assumes res: "getCurrentVirtualReserves token = (Fin q, Fin b)" and "0 < q"
  shows "b = round_rat (6438001146000 / q)"
proof -
  have "Fin b = fdiv (Fin 6438001146000) (Fin q)"
    using reserves_snd [OF res] by (simp add: BONDING_CURVE_K_eq)
  also have "\<dots> = to_number (6438001146000 / q)" by (rule fdiv_Fin) (use assms in simp_all)
  finally show ?thesis using to_number_Fin_eq(1) [of "6438001146000 / q" b] by simp
qed

lemma buy_zero_res:
  assumes res: "getCurrentVirtualReserves token = (Fin q, Fin b)"
  shows "calculateTokensToReceive token 0 = Fin 0"
proof -
  have "fadd (Fin q) (Fin 0) = Fin q"
    by (rule fadd_Fin_0 [OF reserves_is_double(1) [OF res]])
  then show ?thesis
    by (simp add: buy_eq [OF res] Number_formatUnits_0 reserves_snd [OF res, symmetric] fsub_self)
qed

text \<open>The sell quote: the new virtual quote reserve \<open>n\<close> is not too small.\<close>

lemma sell_side:
  assumes res: "getCurrentVirtualReserves token = (Fin q, Fin b)"
    and q: "6000 \<le> q" and a: "0 < a" "a < b" and b: "1 / 2 ^ 19 < b" "b \<le> 2 ^ 31"
  obtains n where "calculateUsdtToReceive token (Fin a) = to_number (q - n)" "0 \<le> n"
    "q - n \<le> q * a / (6438001146000 / q + a) + 3 * pow2 (- 53) * q"
proof -
  define u :: rat where "u = pow2 (- 53)"
  define \<beta> :: rat where "\<beta> = 6438001146000 / q"
  define s where "s = round_rat (b + a)"
  define n where "n = round_rat (6438001146000 / s)"
  have q0: "0 < q" using q by simp
  have \<beta>0: "0 < \<beta>" unfolding \<beta>_def using q0 by simp
  have k: "q * \<beta> = 6438001146000" unfolding \<beta>_def using q0 by simp
  have small: "pow2 (- 1022) \<le> (1 / 2 ^ 19 :: rat)"
    using tiny_le' by simp
  note big = huge_ge
  have \<beta>n: "pow2 (- 1022) \<le> \<beta>"
  proof (rule ccontr)
    assume "\<not> pow2 (- 1022) \<le> \<beta>"
    then have "round_rat \<beta> \<le> round_rat (pow2 (- 1022))" by (intro round_rat_mono) simp
    also have "\<dots> \<le> max (2 * pow2 (- 1022)) (pow2 (- 1021))" by (rule round_rat_le_double) simp
    also have "\<dots> = pow2 (- 1021)" using pow2_Suc [of "- 1022"] by simp
    also have "\<dots> \<le> 1 / 2 ^ 19" using pow2_mono [of "- 1021" "- 19"] by (simp add: pow2_neg_numeral)
    finally show False using b(1) reserve_base_eq [OF res q0] by (simp add: \<beta>_def)
  qed
  have b_le: "b \<le> \<beta> * (1 + u)"
    using round_rat_le_rel [OF \<beta>n] reserve_base_eq [OF res q0] by (simp add: \<beta>_def u_def)
  have db: "is_double (Fin b)" using reserves_is_double(2) [OF res] .
  have ba: "pow2 (- 1022) \<le> b + a" using small b a by linarith
  have s_le: "s \<le> (b + a) * (1 + u)" unfolding s_def u_def by (rule round_rat_le_rel [OF ba])
  have "round_rat b \<le> round_rat (b + a)" by (rule round_rat_mono) (use a in simp)
  then have s_ge: "b \<le> s" using db by (simp add: s_def)
  then have s0: "0 < s" using a by linarith
  have "(b + a) * (1 + u) \<le> (b + a) * 2"
    by (rule mult_left_mono) (use u_bounds a in \<open>simp_all add: u_def\<close>)
  then have s_hi: "s \<le> 2 ^ 33" using s_le a b by simp
  have fs: "fadd (Fin b) (Fin a) = Fin s"
  proof -
    have "b + a \<le> 2 ^ 200" using a b by simp
    then have "to_number (b + a) = Fin (round_rat (b + a))"
      using a big by (intro to_number_finite) simp_all
    then show ?thesis by (simp add: fadd_Fin s_def)
  qed
  have ks: "pow2 (- 1022) \<le> 6438001146000 / s"
  proof -
    have "(1::rat) \<le> 6438001146000 / 2 ^ 33" by simp
    also have "\<dots> \<le> 6438001146000 / s" using s_hi s0 by (intro divide_left_mono) simp_all
    finally show ?thesis using pow2_mono [of "- 1022" 0] by (simp add: pow2_numeral)
  qed
  have n_ge: "q * \<beta> / s * (1 - u) \<le> n"
    unfolding k n_def u_def by (rule round_rat_ge_rel [OF ks])
  have n0: "0 \<le> n" unfolding n_def by (rule round_rat_nonneg) (use s0 in simp)
  have fn: "fdiv BONDING_CURVE_K (Fin s) = Fin n"
  proof -
    have "6438001146000 / s \<le> 6438001146000 / (1 / 2 ^ 19)"
      using s_ge b(1) by (intro divide_left_mono) simp_all
    also have "\<dots> \<le> 2 ^ 200" by simp
    finally have "to_number (6438001146000 / s) = Fin (round_rat (6438001146000 / s))"
      using s0 big by (intro to_number_finite) simp_all
    then show ?thesis using s0 by (simp add: BONDING_CURVE_K_eq fdiv_Fin n_def)
  qed
  have 1: "calculateUsdtToReceive token (Fin a) = to_number (q - n)"
    by (simp add: sell_eq [OF res] fs fn fsub_Fin)
  have "q - n \<le> q * a / (\<beta> + a) + 3 * u * q"
    using q0 \<beta>0 a(1) u_bounds [folded u_def] b_le s0 s_le n_ge by (rule sell_quote_error)
  then have 2: "q - n \<le> q * a / (6438001146000 / q + a) + 3 * pow2 (- 53) * q"
    by (simp add: \<beta>_def u_def)
  from 1 n0 2 show ?thesis by (rule that)
qed

lemma round_rat_small:
  assumes "0 \<le> y" "y \<le> 1 / 2 ^ 200"
  shows "round_rat y \<le> 1 / 2 ^ 199"
proof -
  have "round_rat y \<le> max (2 * y) (pow2 (- 1021))" using assms(1) by (rule round_rat_le_double)
  also have "\<dots> \<le> 1 / 2 ^ 199" using assms(2) tiny_le by simp
  finally show ?thesis .
qed

lemma round_rat_below_one:
  assumes "0 \<le> y" "y \<le> 1 / 4"
  shows "round_rat y \<le> 1 / 2"
proof -
  have "round_rat y \<le> max (2 * y) (pow2 (- 1021))" using assms(1) by (rule round_rat_le_double)
  also have "\<dots> \<le> 1 / 2" using assms(2) tiny_le by simp
  finally show ?thesis .
qed

text \<open>From the quoted USDT amount \<open>qo\<close> to the amount \<open>amt\<close> that the buy quote sees.\<close>

lemma wei_side:
  fixes q d qo :: rat
  assumes d: "0 < d" "d \<le> q" and qo: "qo = round_rat d"
    and wei: "wei = \<lfloor>round_rat (qo * 10 ^ 18)\<rfloor>" "1 \<le> wei"
  shows "round_rat (of_int wei / 10 ^ 18) \<le> d + 4 * pow2 (- 53) * q"
    and "of_int wei / 10 ^ 18 \<le> 2 * (2 * q)"
proof -
  define u :: rat where "u = pow2 (- 53)"
  define x where "x = round_rat (qo * 10 ^ 18)"
  have qo0: "0 \<le> qo" unfolding qo by (rule round_rat_nonneg) (use d in simp)
  have x1: "1 \<le> x" "of_int wei \<le> x"
  proof -
    show "of_int wei \<le> x" unfolding wei(1) x_def by simp
    moreover have "(1::rat) \<le> of_int wei" using wei(2) by simp
    ultimately show "1 \<le> x" by linarith
  qed
  have y_big: "1 / 2 ^ 200 < qo * 10 ^ 18"
  proof (rule ccontr)
    assume "\<not> 1 / 2 ^ 200 < qo * 10 ^ 18"
    then have "x \<le> 1 / 2 ^ 199" unfolding x_def using qo0 by (intro round_rat_small) simp_all
    then show False using x1(1) by simp
  qed
  have d_big: "1 / 2 ^ 200 < d"
  proof (rule ccontr)
    assume "\<not> 1 / 2 ^ 200 < d"
    then have "qo \<le> 1 / 2 ^ 199" unfolding qo using d by (intro round_rat_small) simp_all
    then have "qo * 10 ^ 18 \<le> 1 / 2 ^ 199 * 10 ^ 18" by (rule mult_right_mono) simp
    also have "\<dots> \<le> 1 / 4" by simp
    finally have "x \<le> 1 / 2" unfolding x_def using qo0 by (intro round_rat_below_one) simp_all
    then show False using x1(1) by simp
  qed
  have qo_le: "qo \<le> d * (1 + u)"
    unfolding qo u_def by (rule round_rat_le_rel) (use d_big tiny_le' in linarith)
  have x_le: "x \<le> qo * 10 ^ 18 * (1 + u)"
    unfolding x_def u_def by (rule round_rat_le_rel) (use y_big tiny_le' in linarith)
  have w_big: "pow2 (- 1022) \<le> of_int wei / 10 ^ 18"
  proof -
    have "(1 / 10 ^ 18 :: rat) \<le> of_int wei / 10 ^ 18"
      using wei(2) by (simp add: divide_right_mono)
    moreover have "(1 / 2 ^ 200 :: rat) \<le> 1 / 10 ^ 18" by simp
    ultimately show ?thesis using tiny_le' by linarith
  qed
  have u0: "0 \<le> u" "u \<le> 1 / 4" unfolding u_def by (rule u_bounds)+
  have "round_rat (of_int wei / 10 ^ 18) \<le> of_int wei / 10 ^ 18 * (1 + u)"
    unfolding u_def by (rule round_rat_le_rel [OF w_big])
  also have "\<dots> \<le> x / 10 ^ 18 * (1 + u)"
    by (intro mult_right_mono divide_right_mono x1(2)) (use u0 in simp_all)
  also have "\<dots> \<le> qo * 10 ^ 18 * (1 + u) / 10 ^ 18 * (1 + u)"
    by (intro mult_right_mono divide_right_mono x_le) (use u0 in simp_all)
  also have "\<dots> = qo * ((1 + u) * (1 + u))" by simp
  finally have amt: "round_rat (of_int wei / 10 ^ 18) \<le> qo * ((1 + u) * (1 + u))" .
  have "round_rat (of_int wei / 10 ^ 18) \<le> d + 4 * u * q"
    using u0 less_imp_le [OF d(1)] d(2) qo_le amt by (rule buy_amount_error)
  then show "round_rat (of_int wei / 10 ^ 18) \<le> d + 4 * pow2 (- 53) * q" by (simp add: u_def)
  have "qo \<le> d * 2"
  proof -
    have "d * (1 + u) \<le> d * 2" by (rule mult_left_mono) (use u0 d in simp_all)
    with qo_le show ?thesis by simp
  qed
  then have "qo \<le> q * 2" using d(2) by simp
  have "of_int wei / 10 ^ 18 \<le> x / 10 ^ 18" by (intro divide_right_mono x1(2)) simp
  also have "\<dots> \<le> qo * 10 ^ 18 * (1 + u) / 10 ^ 18" by (intro divide_right_mono x_le) simp
  also have "\<dots> = qo * (1 + u)" by simp
  also have "\<dots> \<le> qo * 2" by (rule mult_left_mono) (use u0 qo0 in simp_all)
  also have "\<dots> \<le> 2 * (2 * q)" using \<open>qo \<le> q * 2\<close> by simp
  finally show "of_int wei / 10 ^ 18 \<le> 2 * (2 * q)" .
qed

text \<open>The buy quote of an amount that is at most the exact sell quote plus its error.\<close>

lemma buy_side:
  assumes res: "getCurrentVirtualReserves token = (Fin q, Fin b)"
    and q: "6000 \<le> q" "q \<le> 2 ^ 63" and a: "0 < a" "a \<le> 2 ^ 31"
    and w: "0 \<le> wei" "of_int wei / 10 ^ 18 \<le> 2 * (2 * q)"
    and M: "round_rat (of_int wei / 10 ^ 18)
        \<le> q * a / (6438001146000 / q + a) + 7 * pow2 (- 53) * q"
  shows "fle (calculateTokensToReceive token wei) (Fin (a + 1 / 2 ^ 19))"
proof -
  define u :: rat where "u = pow2 (- 53)"
  define \<beta> :: rat where "\<beta> = 6438001146000 / q"
  define amt where "amt = round_rat (of_int wei / 10 ^ 18)"
  define s2 where "s2 = round_rat (q + amt)"
  define nb where "nb = round_rat (6438001146000 / s2)"
  define M where "M = q * a / (\<beta> + a) + 7 * u * q"
  have u0: "0 \<le> u" "u \<le> 1 / 4" unfolding u_def by (rule u_bounds)+
  have q0: "0 < q" using q by simp
  have \<beta>0: "0 < \<beta>" unfolding \<beta>_def using q0 by simp
  have k: "q * \<beta> = 6438001146000" unfolding \<beta>_def using q0 by simp
  have \<beta>_hi: "\<beta> \<le> 1073000191"
  proof -
    have "6438001146000 / q \<le> 6438001146000 / 6000" using q by (intro divide_left_mono) simp_all
    then show ?thesis by (simp add: \<beta>_def)
  qed
  have \<beta>_lo: "pow2 (- 1022) \<le> \<beta>"
  proof -
    have "(1 / 2 ^ 200 :: rat) \<le> 6438001146000 / 2 ^ 63" by simp
    also have "\<dots> \<le> 6438001146000 / q" using q by (intro divide_left_mono) simp_all
    finally show ?thesis using tiny_le' by (simp add: \<beta>_def)
  qed
  have b_le: "b \<le> \<beta> * (1 + u)"
    using round_rat_le_rel [OF \<beta>_lo] reserve_base_eq [OF res q0] by (simp add: \<beta>_def u_def)
  have dq: "is_double (Fin q)" using reserves_is_double(1) [OF res] .
  have amt0: "0 \<le> amt" unfolding amt_def by (rule round_rat_nonneg) (use w in simp)
  have amtM: "amt \<le> M" using M by (simp add: amt_def M_def \<beta>_def u_def)
  have fa: "Number_formatUnits wei = Fin amt"
  proof -
    have "of_int wei / 10 ^ 18 \<le> (2 ^ 200 :: rat)" using w(2) q by simp
    then have "to_number (of_int wei / 10 ^ 18) = Fin (round_rat (of_int wei / 10 ^ 18))"
      using w(1) huge_ge by (intro to_number_finite) simp_all
    then show ?thesis by (simp add: Number_formatUnits_def amt_def)
  qed
  have amt_hi: "amt \<le> 2 * (2 * (2 * q))"
  proof -
    have "amt \<le> max (2 * (of_int wei / 10 ^ 18)) (pow2 (- 1021))"
      unfolding amt_def by (rule round_rat_le_double) (use w in simp)
    also have "\<dots> \<le> 2 * (2 * (2 * q))" using w(2) tiny_le q by simp
    finally show ?thesis .
  qed
  have qa: "pow2 (- 1022) \<le> q + amt" using tiny_le' q amt0 by simp
  have s2_le: "s2 \<le> (q + amt) * (1 + u)" unfolding s2_def u_def by (rule round_rat_le_rel [OF qa])
  have "round_rat q \<le> round_rat (q + amt)" by (rule round_rat_mono) (use amt0 in simp)
  then have s2_ge: "q \<le> s2" using dq by (simp add: s2_def)
  then have s20: "0 < s2" using q0 by linarith
  have "(q + amt) * (1 + u) \<le> (q + amt) * 2"
    by (rule mult_left_mono) (use u0 q0 amt0 in simp_all)
  then have s2_hi: "s2 \<le> 2 ^ 70" using s2_le amt_hi q by simp
  have fs2: "fadd (Fin q) (Fin amt) = Fin s2"
  proof -
    have "q + amt \<le> 2 ^ 200" using amt_hi q by simp
    then have "to_number (q + amt) = Fin (round_rat (q + amt))"
      using q0 amt0 huge_ge by (intro to_number_finite) simp_all
    then show ?thesis by (simp add: fadd_Fin s2_def)
  qed
  have ks: "pow2 (- 1022) \<le> 6438001146000 / s2"
  proof -
    have "(1 / 2 ^ 200 :: rat) \<le> 6438001146000 / 2 ^ 70" by simp
    also have "\<dots> \<le> 6438001146000 / s2" using s2_hi s20 by (intro divide_left_mono) simp_all
    finally show ?thesis using tiny_le' by simp
  qed
  have nb_ge: "q * \<beta> / s2 * (1 - u) \<le> nb"
    unfolding k nb_def u_def by (rule round_rat_ge_rel [OF ks])
  have nb0: "0 \<le> nb" unfolding nb_def by (rule round_rat_nonneg) (use s20 in simp)
  have fnb: "fdiv BONDING_CURVE_K (Fin s2) = Fin nb"
  proof -
    have "6438001146000 / s2 \<le> 6438001146000 / 6000"
      using s2_ge q by (intro divide_left_mono) simp_all
    also have "\<dots> \<le> 2 ^ 200" by simp
    finally have "to_number (6438001146000 / s2) = Fin (round_rat (6438001146000 / s2))"
      using s20 huge_ge by (intro to_number_finite) simp_all
    then show ?thesis using s20 by (simp add: BONDING_CURVE_K_eq fdiv_Fin nb_def)
  qed
  have out: "calculateTokensToReceive token wei = to_number (b - nb)"
    by (simp add: buy_eq [OF res] fa fs2 fnb fsub_Fin)
  have "q * \<beta> / (q + M) * (1 - 2 * u) \<le> nb"
    using q0 \<beta>0 u0 amt0 amtM s20 s2_le nb_ge by (rule new_base_error)
  then have "(b - nb) * (1 + u) \<le> a + 12 * u * \<beta>"
    using q0 \<beta>0 a(1) u0 M_def b_le nb0 by (intro buy_back_error)
  moreover have "12 * u * \<beta> \<le> 1 / 2 ^ 19"
  proof -
    have "12 * u * \<beta> \<le> 12 * u * 1073000191"
      by (rule mult_left_mono [OF \<beta>_hi]) (use u0 in simp)
    also have "\<dots> \<le> 1 / 2 ^ 19" by (simp add: u_def pow2_neg_numeral)
    finally show ?thesis .
  qed
  ultimately have rel: "(b - nb) * (1 + u) \<le> a + 1 / 2 ^ 19" by linarith
  have "round_rat (b - nb) \<le> a + 1 / 2 ^ 19"
  proof (cases "pow2 (- 1022) \<le> b - nb")
    case True
    then show ?thesis using round_rat_le_rel [OF True] rel by (simp add: u_def)
  next
    case False
    then have "round_rat (b - nb) \<le> round_rat (pow2 (- 1022))" by (intro round_rat_mono) simp
    also have "\<dots> \<le> max (2 * pow2 (- 1022)) (pow2 (- 1021))" by (rule round_rat_le_double) simp
    also have "\<dots> = pow2 (- 1021)" using pow2_Suc [of "- 1022"] by simp
    also have "\<dots> \<le> a + 1 / 2 ^ 19" using tiny_le a(1) by simp
    finally show ?thesis .
  qed
  moreover have "a + 1 / 2 ^ 19 < pow2 1024"
  proof -
    have "a + 1 / 2 ^ 19 < 2 ^ 200" using a by simp
    also have "\<dots> \<le> pow2 1000" by (rule huge_ge)
    also have "\<dots> < pow2 1024" by (rule pow2_strict_mono) simp
    finally show ?thesis .
  qed
  ultimately show ?thesis unfolding out by (rule to_number_le)
qed

lemma wei_of_amount:
  assumes "\<not> isNaN v" "\<not> fle v (Fin 0)"
    and "BigInt_of_number (Math_floor (fmul v (Fin (10 ^ 18)))) = Inr wei"
  obtains r where "v = Fin r" "0 < r" "wei = \<lfloor>round_rat (r * 10 ^ 18)\<rfloor>"
proof (cases v)
  case (Fin r)
  then have r: "0 < r" using assms(2) by simp
  have m: "fmul v (Fin (10 ^ 18)) = to_number (r * 10 ^ 18)"
    unfolding Fin by (rule fmul_Fin) (use r in simp_all)
  have pos: "0 \<le> round_rat (r * 10 ^ 18)" by (rule round_rat_nonneg) (use r in simp)
  have "0 < pow2 1024" by simp
  then have "wei = \<lfloor>round_rat (r * 10 ^ 18)\<rfloor>"
    using assms(3) pos r unfolding m to_number_def Let_def
    by (auto split: if_splits)
  with Fin r show ?thesis by (rule that)
next
  case PInf
  then show ?thesis using assms(3) by (simp add: fmul_def signed_inf_def)
qed (use assms in \<open>simp_all add: fle_def\<close>)

lemma base_reserve_le:
  assumes res: "getCurrentVirtualReserves token = (Fin q, Fin b)" and q: "6000 \<le> q"
  shows "b \<le> 2 ^ 31" "0 \<le> b"
proof -
  have q0: "0 < q" using q by simp
  have "6438001146000 / q \<le> 6438001146000 / 6000" using q by (intro divide_left_mono) simp_all
  then have "round_rat (6438001146000 / q) \<le> round_rat 1073000191"
    by (intro round_rat_mono) simp
  also have "round_rat 1073000191 = 1073000191" using is_double_1073000191 by simp
  finally show "b \<le> 2 ^ 31" using reserve_base_eq [OF res q0] by simp
  have "0 \<le> round_rat (6438001146000 / q)" by (rule round_rat_nonneg) (use q0 in simp)
  then show "0 \<le> b" using reserve_base_eq [OF res q0] by simp
qed

lemma quote_reserve_le:
  assumes res: "getCurrentVirtualReserves token = (Fin q, Fin b)" and q: "6000 \<le> q"
    and b: "1 / 2 ^ 19 < b"
  shows "q \<le> 2 ^ 63"
proof (rule ccontr)
  assume "\<not> q \<le> 2 ^ 63"
  then have q': "2 ^ 63 \<le> q" by simp
  have q0: "0 < q" using q by simp
  have le: "6438001146000 / q \<le> 6438001146000 / 2 ^ 63"
    using q' by (intro divide_left_mono) simp_all
  have "round_rat (6438001146000 / q) \<le> max (2 * (6438001146000 / q)) (pow2 (- 1021))"
    by (rule round_rat_le_double) (use q0 in simp)
  also have "\<dots> \<le> 1 / 2 ^ 19" using le tiny_le by simp
  finally show False using b reserve_base_eq [OF res q0] by simp
qed

text \<open>
  C7, as the code has it. In a market with finite reserves and a virtual quote reserve of
  at least 6000 (a non-negative amount raised), selling \<open>a > 0\<close> tokens and buying with
  the quoted USDT amount, under the same state, is quoted as at most \<open>a + 2^-19\<close> tokens.
  The excess over \<open>a\<close> is rounding error: at most \<open>12 * 2^-53 * invariantK / virtualQuote\<close>.
\<close>

theorem round_trip_bound:
  assumes res: "getCurrentVirtualReserves token = (Fin q, Fin b)" and q: "6000 \<le> q"
    and a: "0 < a"
    and sell: "quote_effect (Some (Fin a)) True token = Inr (Some usdt)"
    and buy: "quote_effect (Some usdt) False token = Inr (Some out)"
  shows "fle out (Fin (a + 1 / 2 ^ 19))"
proof -
  have q0: "0 < q" using q by simp
  have usdt: "usdt = calculateUsdtToReceive token (Fin a)"
    using sell by (rule quote_effect_sell_inv)
  from buy obtain wei where v: "\<not> isNaN usdt" "\<not> fle usdt (Fin 0)"
    and wei: "BigInt_of_number (Math_floor (fmul usdt (Fin (10 ^ 18)))) = Inr wei"
    and out: "out = calculateTokensToReceive token wei"
    by (rule quote_effect_buy_inv)
  from v wei obtain r where r: "usdt = Fin r" "0 < r" "wei = \<lfloor>round_rat (r * 10 ^ 18)\<rfloor>"
    by (rule wei_of_amount)
  have wei0: "0 \<le> wei"
  proof -
    have "0 \<le> round_rat (r * 10 ^ 18)" by (rule round_rat_nonneg) (use r in simp)
    then show ?thesis by (simp add: r(3))
  qed
  have b_hi: "b \<le> 2 ^ 31" using res q by (rule base_reserve_le)
  have out_b: "fle out (Fin b)" unfolding out using res q0 wei0 by (rule buy_bounds(2))
  show ?thesis
  proof (cases "b \<le> a + 1 / 2 ^ 19")
    case True
    then have "fle (Fin b) (Fin (a + 1 / 2 ^ 19))" by simp
    with out_b show ?thesis by (rule fle_trans)
  next
    case False
    then have b: "a < b" "1 / 2 ^ 19 < b" using a by simp_all
    have q_hi: "q \<le> 2 ^ 63" using res q b(2) by (rule quote_reserve_le)
    from res q a b(1) b(2) b_hi obtain n
      where n: "calculateUsdtToReceive token (Fin a) = to_number (q - n)" "0 \<le> n"
        "q - n \<le> q * a / (6438001146000 / q + a) + 3 * pow2 (- 53) * q"
      by (rule sell_side)
    have rd: "r = round_rat (q - n)"
      using to_number_Fin_eq(1) [of "q - n" r] usdt n(1) r(1) by simp
    have d0: "0 < q - n"
    proof (rule ccontr)
      assume "\<not> 0 < q - n"
      then have "round_rat (q - n) \<le> round_rat 0" by (intro round_rat_mono) simp
      then show False using r(2) rd by simp
    qed
    have dq: "q - n \<le> q" using n(2) by simp
    show ?thesis
    proof (cases "1 \<le> wei")
      case False
      then have "wei = 0" using wei0 by simp
      then have "out = Fin 0" using out buy_zero_res [OF res] by simp
      then show ?thesis using a by simp
    next
      case True
      have amt: "round_rat (of_int wei / 10 ^ 18) \<le> (q - n) + 4 * pow2 (- 53) * q"
        and w4: "of_int wei / 10 ^ 18 \<le> 2 * (2 * q)"
        using d0 dq rd r(3) True by (rule wei_side)+
      have M: "round_rat (of_int wei / 10 ^ 18)
          \<le> q * a / (6438001146000 / q + a) + 7 * pow2 (- 53) * q"
        using amt n(3) by linarith
      have a_hi: "a \<le> 2 ^ 31" using b(1) b_hi by simp
      show ?thesis unfolding out using res q q_hi a a_hi wei0 w4 M by (rule buy_side)
    qed
  qed
qed

text \<open>
  C7, witness: a market with nothing raised, selling 1 token.
\<close>

theorem round_trip_bound_witness:
  "getCurrentVirtualReserves (token_raised 0) = (Fin 6000, Fin 1073000191)
   \<and> (6000::rat) \<le> 6000 \<and> (0::rat) < 1
   \<and> quote_effect (Some (Fin 1)) True (token_raised 0)
       = Inr (Some (Fin (6148247 / 1099511627776)))
   \<and> quote_effect (Some (Fin (6148247 / 1099511627776))) False (token_raised 0)
       = Inr (Some (Fin (8388609 / 8388608)))
   \<and> fle (Fin (8388609 / 8388608)) (Fin (1 + 1 / 2 ^ 19))"
proof -
  have nvb: "fadd (Fin 1073000191) (Fin 1) = Fin 1073000192"
    by (simp add: fin_eval number_eval)
  have nvq: "fdiv BONDING_CURVE_K (Fin 1073000192) = Fin (6597069760507753 / 1099511627776)"
    unfolding BONDING_CURVE_K_eq by (simp add: fin_eval number_eval)
  have usdt: "fsub (Fin 6000) (Fin (6597069760507753 / 1099511627776))
      = Fin (6148247 / 1099511627776)"
    by (simp add: fin_eval number_eval)
  have "quote_effect (Some (Fin 1)) True (token_raised 0)
      = Inr (Some (calculateUsdtToReceive (token_raised 0) (Fin 1)))"
    by (rule quote_effect_sell) simp_all
  then have sell: "quote_effect (Some (Fin 1)) True (token_raised 0)
      = Inr (Some (Fin (6148247 / 1099511627776)))"
    by (simp only: sell_eq [OF reserves_raised_0] nvb nvq usdt)
  have wei: "BigInt_of_number (Math_floor (fmul (Fin (6148247 / 1099511627776)) (Fin (10 ^ 18))))
      = Inr 5591798071691"
    by (simp add: fin_eval number_eval)
  have amt: "Number_formatUnits 5591798071691 = Fin (6601629948182173 / 2 ^ 70)"
    by (simp add: number_eval)
  have nvq': "fadd (Fin 6000) (Fin (6601629948182173 / 2 ^ 70))
      = Fin (6597069772804247 / 1099511627776)"
    by (simp add: fin_eval number_eval)
  have nvb': "fdiv BONDING_CURVE_K (Fin (6597069772804247 / 1099511627776))
      = Fin (9000977977835519 / 8388608)"
    unfolding BONDING_CURVE_K_eq by (simp add: fin_eval number_eval)
  have out: "fsub (Fin 1073000191) (Fin (9000977977835519 / 8388608)) = Fin (8388609 / 8388608)"
    by (simp add: fin_eval number_eval)
  have "quote_effect (Some (Fin (6148247 / 1099511627776))) False (token_raised 0)
      = Inr (Some (calculateTokensToReceive (token_raised 0) 5591798071691))"
    by (rule quote_effect_buy [OF _ _ _ wei]) simp_all
  then have buy: "quote_effect (Some (Fin (6148247 / 1099511627776))) False (token_raised 0)
      = Inr (Some (Fin (8388609 / 8388608)))"
    by (simp only: buy_eq [OF reserves_raised_0] amt nvq' nvb' out)
  show ?thesis
    using round_trip_bound [OF reserves_raised_0 _ _ sell buy] reserves_raised_0 sell buy
    by simp
qed

text \<open>
  C7, counterexample. With nothing raised, selling 1 token is quoted as
  \<open>6148247 / 2^40\<close> USDT, and buying with that amount is quoted as \<open>1 + 2^-23\<close> tokens, more
  than the token sold.
\<close>

theorem round_trip_counterexample:
  "getCurrentVirtualReserves (token_raised 0) = (Fin 6000, Fin 1073000191)
   \<and> quote_effect (Some (Fin 1)) True (token_raised 0)
       = Inr (Some (Fin (6148247 / 1099511627776)))
   \<and> quote_effect (Some (Fin (6148247 / 1099511627776))) False (token_raised 0)
       = Inr (Some (Fin (8388609 / 8388608)))
   \<and> flt (Fin 1) (Fin (8388609 / 8388608))"
proof (intro conjI)
  show "getCurrentVirtualReserves (token_raised 0) = (Fin 6000, Fin 1073000191)"
    by (rule reserves_raised_0)
  have nvb: "fadd (Fin 1073000191) (Fin 1) = Fin 1073000192"
    by (simp add: fin_eval number_eval)
  have nvq: "fdiv BONDING_CURVE_K (Fin 1073000192) = Fin (6597069760507753 / 1099511627776)"
    unfolding BONDING_CURVE_K_eq by (simp add: fin_eval number_eval)
  have usdt: "fsub (Fin 6000) (Fin (6597069760507753 / 1099511627776))
      = Fin (6148247 / 1099511627776)"
    by (simp add: fin_eval number_eval)
  have "quote_effect (Some (Fin 1)) True (token_raised 0)
      = Inr (Some (calculateUsdtToReceive (token_raised 0) (Fin 1)))"
    by (rule quote_effect_sell) simp_all
  then show "quote_effect (Some (Fin 1)) True (token_raised 0)
      = Inr (Some (Fin (6148247 / 1099511627776)))"
    by (simp only: sell_eq [OF reserves_raised_0] nvb nvq usdt)
  have wei: "BigInt_of_number (Math_floor (fmul (Fin (6148247 / 1099511627776)) (Fin (10 ^ 18))))
      = Inr 5591798071691"
    by (simp add: fin_eval number_eval)
  have amt: "Number_formatUnits 5591798071691 = Fin (6601629948182173 / 2 ^ 70)"
    by (simp add: number_eval)
  have nvq': "fadd (Fin 6000) (Fin (6601629948182173 / 2 ^ 70))
      = Fin (6597069772804247 / 1099511627776)"
    by (simp add: fin_eval number_eval)
  have nvb': "fdiv BONDING_CURVE_K (Fin (6597069772804247 / 1099511627776))
      = Fin (9000977977835519 / 8388608)"
    unfolding BONDING_CURVE_K_eq by (simp add: fin_eval number_eval)
  have out: "fsub (Fin 1073000191) (Fin (9000977977835519 / 8388608)) = Fin (8388609 / 8388608)"
    by (simp add: fin_eval number_eval)
  have "quote_effect (Some (Fin (6148247 / 1099511627776))) False (token_raised 0)
      = Inr (Some (calculateTokensToReceive (token_raised 0) 5591798071691))"
    by (rule quote_effect_buy [OF _ _ _ wei]) simp_all
  then show "quote_effect (Some (Fin (6148247 / 1099511627776))) False (token_raised 0)
      = Inr (Some (Fin (8388609 / 8388608)))"
    by (simp only: buy_eq [OF reserves_raised_0] amt nvq' nvb' out)
  show "flt (Fin 1) (Fin (8388609 / 8388608))" by simp
qed

end
